theory Spec2Isabelle
  imports
    Main
    "HOL-Library.Word"
    "HOL-Library.Char_ord"
    "HOL-Library.List_Lexorder"
begin

unbundle bit_operations_syntax

section \<open>Machine types\<close>

type_synonym u32 = "32 word"
type_synonym u64 = "64 word"

text \<open>
  \<open>ulid.ULID\<close> is a \<open>[16]byte\<close> array: a 128-bit value, byte 0 the most significant.
\<close>

type_synonym ULID = "128 word"

section \<open>Library functions the compactor state calls\<close>

subsection \<open>\<open>strconv.Itoa\<close> and \<open>strconv.Atoi\<close>\<close>

text \<open>
  Go's standard library, for a 64-bit \<open>int\<close>. \<open>Itoa\<close> writes the decimal digits, with a
  leading minus sign for a negative number.
\<close>

datatype NumError = ErrSyntax | ErrRange

definition digitChar :: "nat \<Rightarrow> char" where
  "digitChar d = char_of (48 + d)"

definition isDigit :: "char \<Rightarrow> bool" where
  "isDigit c \<longleftrightarrow> (48::nat) \<le> of_char c \<and> of_char c \<le> (57::nat)"

definition digitVal :: "char \<Rightarrow> nat" where
  "digitVal c = of_char c - 48"

fun formatDecimal :: "nat \<Rightarrow> string" where
  "formatDecimal n =
     (if n < 10 then [digitChar n]
      else formatDecimal (n div 10) @ [digitChar (n mod 10)])"

declare formatDecimal.simps [simp del]

definition Itoa :: "int \<Rightarrow> string" where
  "Itoa i = (if i < 0 then CHR ''-'' # formatDecimal (nat (- i)) else formatDecimal (nat i))"

text \<open>
  \<open>Atoi\<close> returns a value and an error. A string of 1 to 18 characters takes the fast
  path: an optional sign, then a loop over the bytes that stops with a syntax error (and
  the value 0) at the first byte that is not a decimal digit (\<open>ch -= '0'; ch > 9\<close> on a
  byte is "not a digit").
\<close>

fun atoiLoop :: "int \<Rightarrow> string \<Rightarrow> int option" where
  "atoiLoop n [] = Some n"
| "atoiLoop n (ch # rest) =
     (if \<not> isDigit ch then None
      else atoiLoop (n * 10 + int (digitVal ch)) rest)"

definition atoiFast :: "string \<Rightarrow> int \<times> NumError option" where
  "atoiFast s0 =
     (let signed = (hd s0 = CHR ''-'' \<or> hd s0 = CHR ''+'');
          s = (if signed then tl s0 else s0)
      in if signed \<and> length s < 1 then (0, Some ErrSyntax)
         else case atoiLoop 0 s of
                None \<Rightarrow> (0, Some ErrSyntax)
              | Some n \<Rightarrow> (if hd s0 = CHR ''-'' then - n else n, None))"

text \<open>
  Any other string goes through \<open>ParseInt(s, 10, 0)\<close>, which takes the sign off and calls
  \<open>ParseUint\<close>. The loop of \<open>ParseUint\<close> reads the bytes from the left: a byte that is
  not a digit gives a syntax error with the value 0; once the digits read so far leave the
  unsigned 64-bit range it returns the range error with the largest value, whatever
  follows. (The wrap-around test \<open>n1 < n\<close> of the code is \<open>maxUint64 < n1\<close> on unbounded
  numbers.) \<open>ParseInt\<close> passes a syntax error on with the value 0 and clamps a value
  outside \<open>[-2^63, 2^63 - 1]\<close> to the nearest bound, with a range error.
\<close>

fun parseUintLoop :: "nat \<Rightarrow> string \<Rightarrow> nat \<times> NumError option" where
  "parseUintLoop n [] = (n, None)"
| "parseUintLoop n (c # rest) =
     (if \<not> isDigit c then (0, Some ErrSyntax)
      else if 1844674407370955162 \<le> n then (18446744073709551615, Some ErrRange)
      else (let n1 = n * 10 + digitVal c
            in if 18446744073709551615 < n1 then (18446744073709551615, Some ErrRange)
               else parseUintLoop n1 rest))"

definition ParseUint :: "string \<Rightarrow> nat \<times> NumError option" where
  "ParseUint s = (if s = [] then (0, Some ErrSyntax) else parseUintLoop 0 s)"

definition ParseInt :: "string \<Rightarrow> int \<times> NumError option" where
  "ParseInt s0 =
     (if s0 = [] then (0, Some ErrSyntax)
      else
        (let neg = (hd s0 = CHR ''-'');
             s = (if hd s0 = CHR ''+'' \<or> hd s0 = CHR ''-'' then tl s0 else s0);
             (un, err) = ParseUint s
         in if err = Some ErrSyntax then (0, Some ErrSyntax)
            else if \<not> neg \<and> 9223372036854775808 \<le> un
            then (9223372036854775807, Some ErrRange)
            else if neg \<and> 9223372036854775808 < un
            then (- 9223372036854775808, Some ErrRange)
            else (if neg then - int un else int un, None)))"

definition Atoi :: "string \<Rightarrow> int \<times> NumError option" where
  "Atoi s = (if 0 < length s \<and> length s < 19 then atoiFast s else ParseInt s)"

text \<open>The value of a string of digits, for the proofs.\<close>

definition parseDecimal :: "string \<Rightarrow> nat" where
  "parseDecimal s = foldl (\<lambda>n c. n * 10 + digitVal c) 0 s"

subsection \<open>\<open>ULID.String\<close> and \<open>ulid.Parse\<close>\<close>

text \<open>
  The \<open>oklog/ulid\<close> package. \<open>String\<close> writes the 128 bits as 26 characters of
  Crockford's base 32, most significant first (the first character carries the top three
  bits): character \<open>i\<close> is the digit of the five bits from bit \<open>5 * (25 - i)\<close> up.
\<close>

type_synonym byte = "8 word"

definition Encoding :: string where
  "Encoding = ''0123456789ABCDEFGHJKMNPQRSTVWXYZ''"

definition ulidDigit :: "ULID \<Rightarrow> nat \<Rightarrow> char" where
  "ulidDigit u i = Encoding ! unat (take_bit 5 (drop_bit (5 * (25 - i)) u))"

definition ulid_String :: "ULID \<Rightarrow> string" where
  "ulid_String u = map (ulidDigit u) [0..<26]"

text \<open>
  The table \<open>dec\<close> of the package gives the digit of a character of the alphabet, in
  either case, and \<open>0xFF\<close> for any other byte.
\<close>

definition toUpper :: "char \<Rightarrow> char" where
  "toUpper c =
     (if CHR ''a'' \<le> c \<and> c \<le> CHR ''z'' then char_of (of_char c - (32::nat)) else c)"

primrec lookupIndex :: "char \<Rightarrow> string \<Rightarrow> nat option" where
  "lookupIndex c [] = None"
| "lookupIndex c (x # xs) = (if c = x then Some 0 else map_option Suc (lookupIndex c xs))"

definition dec :: "char \<Rightarrow> byte" where
  "dec c = (case lookupIndex (toUpper c) Encoding of Some d \<Rightarrow> of_nat d | None \<Rightarrow> 255)"

text \<open>
  \<open>Parse\<close> (the non-strict parser) rejects a string that is not 26 characters long and
  one whose first character is above \<open>7\<close> (more than 128 bits); it does not check the
  characters against the alphabet. It then builds the 16 bytes one by one from the table's
  values, with shifts on bytes (bits shifted out of a byte are lost): byte 0 from
  characters 0 and 1, and three times five bytes from eight characters.
\<close>

definition decodeBlock :: "string \<Rightarrow> nat \<Rightarrow> byte list" where
  "decodeBlock v k =
     [push_bit 3 (dec (v ! k)) OR drop_bit 2 (dec (v ! (k + 1))),
      push_bit 6 (dec (v ! (k + 1))) OR push_bit 1 (dec (v ! (k + 2)))
        OR drop_bit 4 (dec (v ! (k + 3))),
      push_bit 4 (dec (v ! (k + 3))) OR drop_bit 1 (dec (v ! (k + 4))),
      push_bit 7 (dec (v ! (k + 4))) OR push_bit 2 (dec (v ! (k + 5)))
        OR drop_bit 3 (dec (v ! (k + 6))),
      push_bit 5 (dec (v ! (k + 6))) OR dec (v ! (k + 7))]"

definition ulidOfBytes :: "byte list \<Rightarrow> ULID" where
  "ulidOfBytes bs = foldl (\<lambda>acc b. push_bit 8 acc OR ucast b) 0 bs"

datatype ulid_error = ErrDataSize | ErrOverflow

definition ulid_Parse :: "string \<Rightarrow> ulid_error + ULID" where
  "ulid_Parse v =
     (if length v \<noteq> 26 then Inl ErrDataSize
      else if CHR ''7'' < v ! 0 then Inl ErrOverflow
      else Inr (ulidOfBytes
                  ((push_bit 5 (dec (v ! 0)) OR dec (v ! 1))
                   # decodeBlock v 2 @ decodeBlock v 10 @ decodeBlock v 18)))"

text \<open>The five bits of an identifier from bit \<open>p\<close> up, as a byte, for the proofs.\<close>

definition digit5 :: "ULID \<Rightarrow> nat \<Rightarrow> byte" where
  "digit5 u p = ucast (take_bit 5 (drop_bit p u))"

section \<open>SourceID\<close>

datatype SourceIDType = SortedRunID | SSTID

text \<open>
  The struct's fields are \<open>typ\<close> and \<open>value\<close>; both words are reserved in Isabelle,
  hence the suffix.
\<close>

record SourceID =
  typ_of :: SourceIDType
  value_of :: string

text \<open>\<open>int(id)\<close> of a \<open>uint32\<close> is its unsigned value.\<close>

definition newSourceIDSortedRun :: "u32 \<Rightarrow> SourceID" where
  "newSourceIDSortedRun i = \<lparr>typ_of = SortedRunID, value_of = Itoa (uint i)\<rparr>"

definition newSourceIDSST :: "ULID \<Rightarrow> SourceID" where
  "newSourceIDSST u = \<lparr>typ_of = SSTID, value_of = ulid_String u\<rparr>"

text \<open>\<open>uint32(val)\<close> keeps the low 32 bits of the \<open>int\<close>.\<close>

definition sortedRunID :: "SourceID \<Rightarrow> u32 option" where
  "sortedRunID s =
     (if typ_of s \<noteq> SortedRunID then None
      else case Atoi (value_of s) of
             (v, Some e) \<Rightarrow> None
           | (v, None) \<Rightarrow> Some (word_of_int v))"

definition sstID :: "SourceID \<Rightarrow> ULID option" where
  "sstID s =
     (if typ_of s \<noteq> SSTID then None
      else case ulid_Parse (value_of s) of
             Inl e \<Rightarrow> None
           | Inr v \<Rightarrow> Some v)"

section \<open>Compaction\<close>

datatype CompactionStatus = Submitted | InProgress

record Compaction =
  status :: CompactionStatus
  sources :: "SourceID list"
  destination :: u32

definition newCompaction :: "SourceID list \<Rightarrow> u32 \<Rightarrow> Compaction" where
  "newCompaction srcs dest = \<lparr>status = Submitted, sources = srcs, destination = dest\<rparr>"

section \<open>The database snapshot\<close>

text \<open>
  Modelled from the spec: the type \<open>SSTableID\<close> is declared outside the files at hand.
  The spec describes a file identity as a token tagged as either a write-ahead-log sequence
  id or a compacted-file id.
\<close>

datatype SSTableID = WAL u64 | Compacted ULID

text \<open>
  Modelled from the spec: the accessor \<open>compactedID\<close> is defined outside the files at
  hand; like the accessors of \<open>SourceID\<close>, it gives the id of the variant it is named
  after and is absent on the other variant.
\<close>

definition compactedID :: "SSTableID \<Rightarrow> ULID option" where
  "compactedID i = (case i of WAL n \<Rightarrow> None | Compacted u \<Rightarrow> Some u)"

text \<open>
  Modelled from the spec: the type \<open>SSTableHandle\<close> is declared outside the files at hand;
  a handle carries the file's id, and whatever else it carries is opaque here.
\<close>

record SSTableHandle =
  handle_id :: SSTableID
  handle_info :: nat

text \<open>
  Modelled from the spec: \<open>SortedRun\<close> is \<open>{ id: uint32, files: ordered sequence of file
  handles }\<close> (the field \<open>id\<close> is named \<open>sr_id\<close>, as \<open>id\<close> is the identity function of
  HOL).
\<close>

record SortedRun =
  sr_id :: u32
  files :: "SSTableHandle list"

text \<open>
  Modelled from the spec: \<open>CoreDBState\<close> is declared outside the files at hand. The
  fields are those of the spec's data model.
\<close>

record CoreDBState =
  l0LastCompacted :: "ULID option"
  l0 :: "SSTableHandle list"
  compacted :: "SortedRun list"
  nextWalSstID :: u64
  lastCompactedWalSSTID :: u64

text \<open>
  Modelled from the spec: \<open>clone\<close> is defined outside the files at hand. The spec has
  the snapshot replaced wholesale by a copy, never changed in place; the state is a value
  here, so the copy is the value itself.
\<close>

definition clone :: "CoreDBState \<Rightarrow> CoreDBState" where
  "clone s = s"

section \<open>CompactorState\<close>

text \<open>
  Modelled from the spec: \<open>common.ErrInvalidCompaction\<close> and \<open>common.AssertTrue\<close> are
  declared outside the files at hand. The first is the one error \<open>submitCompaction\<close>
  returns. A failed assertion is fatal: the call aborts, here with the result
  \<open>AssertionFailed\<close> and the assertion's message.
\<close>

datatype error = ErrInvalidCompaction | AssertionFailed string

record CompactorState =
  dbState :: CoreDBState
  compactions :: "u32 \<rightharpoonup> Compaction"

definition newCompactorState :: "CoreDBState \<Rightarrow> CompactorState" where
  "newCompactorState s = \<lparr>dbState = s, compactions = Map.empty\<rparr>"

subsection \<open>submitCompaction\<close>

text \<open>
  The loop over \<open>compaction.sources\<close>. The error of \<open>Atoi\<close> is dropped, as in the code:
  the value \<open>Atoi\<close> returns beside it is compared.
\<close>

primrec sourceSRMatches :: "SourceID list \<Rightarrow> u32 \<Rightarrow> bool" where
  "sourceSRMatches [] dest = False"
| "sourceSRMatches (src # rest) dest =
     (if typ_of src = SortedRunID \<and> word_of_int (fst (Atoi (value_of src))) = dest then True
      else sourceSRMatches rest dest)"

definition oneOfTheSourceSRMatchesDestination :: "Compaction \<Rightarrow> bool" where
  "oneOfTheSourceSRMatchesDestination compaction =
     sourceSRMatches (sources compaction) (destination compaction)"

text \<open>
  The loop over \<open>c.dbState.compacted\<close>: \<open>Some\<close> is the early return of the error,
  \<open>None\<close> the \<open>break\<close> or the end of the list.
\<close>

primrec checkDestination :: "SortedRun list \<Rightarrow> Compaction \<Rightarrow> error option" where
  "checkDestination [] compaction = None"
| "checkDestination (sr # rest) compaction =
     (if sr_id sr = destination compaction
      then (if \<not> oneOfTheSourceSRMatchesDestination compaction then Some ErrInvalidCompaction
            else None)
      else checkDestination rest compaction)"

definition submitCompaction :: "CompactorState \<Rightarrow> Compaction \<Rightarrow> error + CompactorState" where
  "submitCompaction c compaction =
     (case compactions c (destination compaction) of
        Some existing \<Rightarrow> Inl ErrInvalidCompaction
      | None \<Rightarrow>
          (case checkDestination (compacted (dbState c)) compaction of
             Some e \<Rightarrow> Inl e
           | None \<Rightarrow>
               Inr (c\<lparr>compactions := (compactions c)(destination compaction \<mapsto> compaction)\<rparr>)))"

subsection \<open>refreshDBState\<close>

text \<open>
  The loop over \<open>writerState.l0\<close>, with \<open>mergedL0s\<close> as the accumulator; the second
  equation's \<open>Inr mergedL0s\<close> is the \<open>break\<close>.
\<close>

fun mergeL0 ::
  "ULID option \<Rightarrow> SSTableHandle list \<Rightarrow> SSTableHandle list \<Rightarrow> error + SSTableHandle list"
where
  "mergeL0 lastCompactedL0 [] mergedL0s = Inr mergedL0s"
| "mergeL0 lastCompactedL0 (writerL0SST # rest) mergedL0s =
     (case handle_id writerL0SST of
        WAL n \<Rightarrow> Inl (AssertionFailed ''unexpected SSTableID type'')
      | Compacted writerL0ID \<Rightarrow>
          (if lastCompactedL0 \<noteq> None \<and> Some writerL0ID = lastCompactedL0 then Inr mergedL0s
           else mergeL0 lastCompactedL0 rest (mergedL0s @ [writerL0SST])))"

definition refreshDBState :: "CompactorState \<Rightarrow> CoreDBState \<Rightarrow> error + CompactorState" where
  "refreshDBState c writerState =
     (let lastCompactedL0 = l0LastCompacted (dbState c)
      in case mergeL0 lastCompactedL0 (l0 writerState) [] of
           Inl e \<Rightarrow> Inl e
         | Inr mergedL0s \<Rightarrow>
             (let merged = clone (dbState c);
                  merged = merged\<lparr>l0 := mergedL0s\<rparr>;
                  merged = merged\<lparr>lastCompactedWalSSTID := lastCompactedWalSSTID writerState\<rparr>;
                  merged = merged\<lparr>nextWalSstID := nextWalSstID writerState\<rparr>
              in Inr (c\<lparr>dbState := merged\<rparr>)))"

subsection \<open>finishCompaction\<close>

text \<open>
  The loop over \<open>compaction.sources\<close> that fills the two membership maps (their values are
  all \<open>true\<close>: sets).
\<close>

fun collectSources :: "SourceID list \<Rightarrow> ULID set \<times> u32 set \<Rightarrow> ULID set \<times> u32 set" where
  "collectSources [] (compactionL0s, compactionSRs) = (compactionL0s, compactionSRs)"
| "collectSources (srcId # rest) (compactionL0s, compactionSRs) =
     (case sstID srcId of
        Some i \<Rightarrow> collectSources rest (insert i compactionL0s, compactionSRs)
      | None \<Rightarrow>
          (case sortedRunID srcId of
             Some i \<Rightarrow> collectSources rest (compactionL0s, insert i compactionSRs)
           | None \<Rightarrow> collectSources rest (compactionL0s, compactionSRs)))"

text \<open>The loop over \<open>dbState.l0\<close>, with \<open>newL0\<close> as the accumulator.\<close>

fun removeCompactedL0 ::
  "ULID set \<Rightarrow> SSTableHandle list \<Rightarrow> SSTableHandle list \<Rightarrow> error + SSTableHandle list"
where
  "removeCompactedL0 compactionL0s [] newL0 = Inr newL0"
| "removeCompactedL0 compactionL0s (sst # rest) newL0 =
     (case compactedID (handle_id sst) of
        None \<Rightarrow> Inl (AssertionFailed ''Expected compactedID not present'')
      | Some l0ID \<Rightarrow>
          (if l0ID \<notin> compactionL0s then removeCompactedL0 compactionL0s rest (newL0 @ [sst])
           else removeCompactedL0 compactionL0s rest newL0))"

text \<open>
  The loop over \<open>dbState.compacted\<close>, with \<open>newCompacted\<close> and \<open>inserted\<close> as the
  accumulators.
\<close>

fun insertOutputSR ::
  "SortedRun \<Rightarrow> u32 set \<Rightarrow> SortedRun list \<Rightarrow> SortedRun list \<times> bool \<Rightarrow> SortedRun list \<times> bool"
where
  "insertOutputSR outputSR compactionSRs [] (newCompacted, inserted) = (newCompacted, inserted)"
| "insertOutputSR outputSR compactionSRs (sr # rest) (newCompacted, inserted) =
     (let (newCompacted, inserted) =
            (if \<not> inserted \<and> sr_id outputSR \<ge> sr_id sr then (newCompacted @ [outputSR], True)
             else (newCompacted, inserted));
          newCompacted =
            (if sr_id sr \<notin> compactionSRs then newCompacted @ [sr] else newCompacted)
      in insertOutputSR outputSR compactionSRs rest (newCompacted, inserted))"

text \<open>
  \<open>assertCompactedSRsInIDOrder\<close>: the loop with \<open>lastSortedRunID\<close>, which starts at
  \<open>math.MaxUint32\<close>.
\<close>

fun assertInIDOrderFrom :: "u32 \<Rightarrow> SortedRun list \<Rightarrow> error option" where
  "assertInIDOrderFrom lastSortedRunID [] = None"
| "assertInIDOrderFrom lastSortedRunID (sr # rest) =
     (if sr_id sr < lastSortedRunID then assertInIDOrderFrom (sr_id sr) rest
      else Some (AssertionFailed ''compacted sortedRuns not in decreasing order''))"

definition assertCompactedSRsInIDOrder :: "SortedRun list \<Rightarrow> error option" where
  "assertCompactedSRsInIDOrder compacted_list = assertInIDOrderFrom 4294967295 compacted_list"

definition finishCompaction :: "CompactorState \<Rightarrow> SortedRun \<Rightarrow> error + CompactorState" where
  "finishCompaction c outputSR =
     (case compactions c (sr_id outputSR) of
        None \<Rightarrow> Inr c
      | Some compaction \<Rightarrow>
          (let (compactionL0s, compactionSRs) = collectSources (sources compaction) ({}, {});
               compactionSRs = insert (destination compaction) compactionSRs;
               dbState0 = clone (dbState c)
           in case removeCompactedL0 compactionL0s (l0 dbState0) [] of
                Inl e \<Rightarrow> Inl e
              | Inr newL0 \<Rightarrow>
                  (let (newCompacted, inserted) =
                         insertOutputSR outputSR compactionSRs (compacted dbState0) ([], False);
                       newCompacted =
                         (if \<not> inserted then newCompacted @ [outputSR] else newCompacted)
                   in case assertCompactedSRsInIDOrder newCompacted of
                        Some e \<Rightarrow> Inl e
                      | None \<Rightarrow>
                          (if \<not> length (sources compaction) > 0
                           then Inl (AssertionFailed ''compaction should not be empty'')
                           else
                             (let firstSource = hd (sources compaction);
                                  dbState1 =
                                    (case sstID firstSource of
                                       Some compactedL0 \<Rightarrow>
                                         dbState0\<lparr>l0LastCompacted := Some compactedL0\<rparr>
                                     | None \<Rightarrow> dbState0);
                                  dbState2 = dbState1\<lparr>l0 := newL0\<rparr>;
                                  dbState3 = dbState2\<lparr>compacted := newCompacted\<rparr>
                              in Inr \<lparr>dbState = dbState3,
                                      compactions = (compactions c)(sr_id outputSR := None)\<rparr>)))))"

section \<open>Sequences of calls\<close>

text \<open>
  A call of one of the three operations of \<open>CompactorState\<close>, and a sequence of calls
  in which every call succeeds: the sequence stops at the first call that returns an error
  or aborts.
\<close>

datatype CompactorCall =
    Submit Compaction
  | Refresh CoreDBState
  | Finish SortedRun

definition applyCall :: "CompactorState \<Rightarrow> CompactorCall \<Rightarrow> error + CompactorState" where
  "applyCall c call =
     (case call of
        Submit compaction \<Rightarrow> submitCompaction c compaction
      | Refresh writerState \<Rightarrow> refreshDBState c writerState
      | Finish outputSR \<Rightarrow> finishCompaction c outputSR)"

fun applyCalls :: "CompactorState \<Rightarrow> CompactorCall list \<Rightarrow> error + CompactorState" where
  "applyCalls c [] = Inr c"
| "applyCalls c (call # rest) =
     (case applyCall c call of
        Inl e \<Rightarrow> Inl e
      | Inr c' \<Rightarrow> applyCalls c' rest)"

section \<open>What the spec says of the operations\<close>

text \<open>
  The standing invariant of \<open>compacted\<close>: strictly decreasing by id, no duplicate ids.
\<close>

definition strictlyDecreasingByID :: "SortedRun list \<Rightarrow> bool" where
  "strictlyDecreasingByID srs \<longleftrightarrow>
     sorted_wrt (\<lambda>a b. sr_id b < sr_id a) srs \<and> distinct (map sr_id srs)"

text \<open>
  The spec's SourceID: a closed sum of two variants, a sorted-run id or a file id. The
  two constructors of the code give its representation.
\<close>

datatype Source = SortedRunSource u32 | SSTSource ULID

definition encodeSource :: "Source \<Rightarrow> SourceID" where
  "encodeSource src =
     (case src of
        SortedRunSource i \<Rightarrow> newSourceIDSortedRun i
      | SSTSource u \<Rightarrow> newSourceIDSST u)"

text \<open>
  The ids a compaction consumes: the file ids among its sources, and the sorted-run ids
  among its sources together with its destination.
\<close>

definition consumedFiles :: "Source list \<Rightarrow> ULID set" where
  "consumedFiles srcs = set [u. SSTSource u \<leftarrow> srcs]"

definition consumedRuns :: "Source list \<Rightarrow> u32 \<Rightarrow> u32 set" where
  "consumedRuns srcs dest = insert dest (set [i. SortedRunSource i \<leftarrow> srcs])"

text \<open>The level-0 files that remain: those whose id is not a consumed file id.\<close>

definition remainingL0 :: "ULID set \<Rightarrow> SSTableHandle list \<Rightarrow> SSTableHandle list" where
  "remainingL0 consumed hs =
     filter (\<lambda>h. case compactedID (handle_id h) of
                    None \<Rightarrow> True
                  | Some u \<Rightarrow> u \<notin> consumed) hs"

text \<open>
  The rebuilt list of sorted runs: the output run goes in front of the first run of the
  previous list whose id is at most its own (at the end when there is none), and the
  consumed runs are dropped.
\<close>

definition rebuiltCompacted :: "u32 set \<Rightarrow> SortedRun \<Rightarrow> SortedRun list \<Rightarrow> SortedRun list" where
  "rebuiltCompacted consumed outputSR srs =
     filter (\<lambda>sr. sr_id sr \<notin> consumed) (takeWhile (\<lambda>sr. sr_id outputSR < sr_id sr) srs)
     @ [outputSR]
     @ filter (\<lambda>sr. sr_id sr \<notin> consumed) (dropWhile (\<lambda>sr. sr_id outputSR < sr_id sr) srs)"

text \<open>
  What the accessors of the code read from the sources of a compaction, whatever their
  strings hold: the two membership sets that \<open>finishCompaction\<close> fills.
\<close>

definition sourceFileIDs :: "Compaction \<Rightarrow> ULID set" where
  "sourceFileIDs compaction = set (List.map_filter sstID (sources compaction))"

definition sourceRunIDs :: "Compaction \<Rightarrow> u32 set" where
  "sourceRunIDs compaction =
     insert (destination compaction) (set (List.map_filter sortedRunID (sources compaction)))"

text \<open>
  The level-0 list after a refresh: the longest prefix of the writer's list with no entry
  whose id is the watermark.
\<close>

definition prefixBeforeWatermark :: "ULID option \<Rightarrow> SSTableHandle list \<Rightarrow> SSTableHandle list" where
  "prefixBeforeWatermark watermark hs =
     takeWhile (\<lambda>h. watermark = None \<or> compactedID (handle_id h) \<noteq> watermark) hs"

section \<open>SortedRunIterator\<close>

text \<open>
  Modelled from the spec: the iterator's code is outside the files at hand (its tests are
  among them). The table store is an external collaborator: reading a file either fails or
  gives the file's key/value pairs in the order the file stores them. Keys and values are
  byte strings, keys compared bytewise.
\<close>

type_synonym KV = "string \<times> string"

datatype read_error = ReadFailed

type_synonym TableStore = "SSTableHandle \<Rightarrow> KV list option"

text \<open>
  Modelled from the spec: the sequence of a run is the concatenation of its files'
  sequences, file 0 first. The iterator holds the pairs of the open file that it has not
  yielded yet and the files it has not opened yet; the two tuning parameters bound the
  read-ahead and have no part in the sequence.
\<close>

record SortedRunIterator =
  currentKVs :: "KV list"
  pendingSSTs :: "SSTableHandle list"
  maxFetchTasks :: nat
  numBlocksToFetch :: nat

text \<open>
  Modelled from the spec: a new iterator for a full scan has no file open and all the
  run's files ahead.
\<close>

definition newSortedRunIterator :: "SortedRun \<Rightarrow> nat \<Rightarrow> nat \<Rightarrow> SortedRunIterator" where
  "newSortedRunIterator sr tasks blocks =
     \<lparr>currentKVs = [], pendingSSTs = files sr, maxFetchTasks = tasks, numBlocksToFetch = blocks\<rparr>"

text \<open>
  Modelled from the spec: the next pair is the next pair of the open file; when that file
  is exhausted the next file is opened; past the last file the answer is "none", with no
  error.
\<close>

fun nextEntry ::
  "TableStore \<Rightarrow> KV list \<Rightarrow> SSTableHandle list \<Rightarrow>
     read_error + (KV option \<times> KV list \<times> SSTableHandle list)"
where
  "nextEntry ts (kv # rest) pending = Inr (Some kv, rest, pending)"
| "nextEntry ts [] [] = Inr (None, [], [])"
| "nextEntry ts [] (sst # pending) =
     (case ts sst of
        None \<Rightarrow> Inl ReadFailed
      | Some kvs \<Rightarrow> nextEntry ts kvs pending)"

text \<open>
  Modelled from the spec: \<open>Next\<close> is that step on the iterator; it returns the pair or
  "none", or the error of a read that failed.
\<close>

definition Next ::
  "TableStore \<Rightarrow> SortedRunIterator \<Rightarrow> read_error + (KV option \<times> SortedRunIterator)"
where
  "Next ts iter =
     (case nextEntry ts (currentKVs iter) (pendingSSTs iter) of
        Inl e \<Rightarrow> Inl e
      | Inr (kv, kvs, pending) \<Rightarrow> Inr (kv, iter\<lparr>currentKVs := kvs, pendingSSTs := pending\<rparr>))"

text \<open>
  \<open>n\<close> calls of \<open>Next\<close> in a row, with what each returned: the consumer's side of a scan.
\<close>

fun nextCalls ::
  "TableStore \<Rightarrow> nat \<Rightarrow> SortedRunIterator \<Rightarrow> read_error + (KV option list \<times> SortedRunIterator)"
where
  "nextCalls ts 0 iter = Inr ([], iter)"
| "nextCalls ts (Suc n) iter =
     (case Next ts iter of
        Inl e \<Rightarrow> Inl e
      | Inr (kv, iter') \<Rightarrow>
          (case nextCalls ts n iter' of
             Inl e \<Rightarrow> Inl e
           | Inr (kvs, iter'') \<Rightarrow> Inr (kv # kvs, iter'')))"

text \<open>
  The content of a run: its files' pairs, file after file. The run's files are sorted and
  disjoint when the keys of each file are strictly ascending and every key of a file is
  below every key of the files after it.
\<close>

definition fileContent :: "TableStore \<Rightarrow> SSTableHandle \<Rightarrow> KV list" where
  "fileContent ts sst = (case ts sst of None \<Rightarrow> [] | Some kvs \<Rightarrow> kvs)"

definition runContent :: "TableStore \<Rightarrow> SortedRun \<Rightarrow> KV list" where
  "runContent ts sr = concat (map (fileContent ts) (files sr))"

text \<open>
  What an iterator has still to yield: the rest of the open file, then the files not yet
  opened.
\<close>

definition remainingKVs :: "TableStore \<Rightarrow> SortedRunIterator \<Rightarrow> KV list" where
  "remainingKVs ts iter = currentKVs iter @ concat (map (fileContent ts) (pendingSSTs iter))"

fun filesSortedDisjoint :: "KV list list \<Rightarrow> bool" where
  "filesSortedDisjoint [] = True"
| "filesSortedDisjoint (kvs # rest) =
     (sorted_wrt (<) (map fst kvs)
      \<and> (\<forall>k \<in> set (map fst kvs). \<forall>k' \<in> set (map fst (concat rest)). k < k')
      \<and> filesSortedDisjoint rest)"

section \<open>A concrete state\<close>

text \<open>
  Three level-0 files (newest first), two sorted runs, and a compaction of the two older
  files and run 3 into run 3.
\<close>

definition sstHandle :: "ULID \<Rightarrow> SSTableHandle" where
  "sstHandle u = \<lparr>handle_id = Compacted u, handle_info = 0\<rparr>"

definition exampleDB :: CoreDBState where
  "exampleDB =
     \<lparr>l0LastCompacted = None,
      l0 = [sstHandle 30, sstHandle 20, sstHandle 10],
      compacted = [\<lparr>sr_id = 5, files = []\<rparr>, \<lparr>sr_id = 3, files = []\<rparr>],
      nextWalSstID = 4,
      lastCompactedWalSSTID = 3\<rparr>"

definition exampleCompaction :: Compaction where
  "exampleCompaction =
     newCompaction [newSourceIDSST 20, newSourceIDSST 10, newSourceIDSortedRun 3] 3"

definition exampleOutput :: SortedRun where
  "exampleOutput = \<lparr>sr_id = 3, files = [sstHandle 40]\<rparr>"

definition exampleWriterState :: CoreDBState where
  "exampleWriterState =
     \<lparr>l0LastCompacted = None,
      l0 = [sstHandle 50, sstHandle 30, sstHandle 20, sstHandle 10],
      compacted = [],
      nextWalSstID = 6,
      lastCompactedWalSSTID = 5\<rparr>"

text \<open>
  Four sorted runs, and a compaction of two files and of runs 5 and 3 into a new run 4.
\<close>

definition exampleDB4 :: CoreDBState where
  "exampleDB4 =
     \<lparr>l0LastCompacted = None,
      l0 = [sstHandle 30, sstHandle 20, sstHandle 10],
      compacted =
        [\<lparr>sr_id = 7, files = []\<rparr>, \<lparr>sr_id = 5, files = []\<rparr>,
         \<lparr>sr_id = 3, files = []\<rparr>, \<lparr>sr_id = 1, files = []\<rparr>],
      nextWalSstID = 4,
      lastCompactedWalSSTID = 3\<rparr>"

definition exampleSources4 :: "Source list" where
  "exampleSources4 = [SSTSource 20, SSTSource 10, SortedRunSource 5, SortedRunSource 3]"

definition exampleCompaction4 :: Compaction where
  "exampleCompaction4 = newCompaction (map encodeSource exampleSources4) 4"

text \<open>
  The run of the test \<open>TestManySstSRIter\<close>: two files, the first with \<open>key1\<close> and
  \<open>key2\<close>, the second with \<open>key3\<close>.
\<close>

definition exampleStore :: TableStore where
  "exampleStore sst =
     (if sst = sstHandle 1 then Some [(''key1'', ''value1''), (''key2'', ''value2'')]
      else if sst = sstHandle 2 then Some [(''key3'', ''value3'')]
      else None)"

definition exampleRun :: SortedRun where
  "exampleRun = \<lparr>sr_id = 0, files = [sstHandle 1, sstHandle 2]\<rparr>"

section \<open>The string encodings of SourceID round-trip\<close>

subsection \<open>Decimal digits\<close>

lemma of_char_digitChar: "d < 10 \<Longrightarrow> of_char (digitChar d) = 48 + d"
  by (simp add: digitChar_def)

lemma isDigit_digitChar: "d < 10 \<Longrightarrow> isDigit (digitChar d)"
  by (simp add: isDigit_def of_char_digitChar)

lemma digitVal_digitChar: "d < 10 \<Longrightarrow> digitVal (digitChar d) = d"
  by (simp add: digitVal_def of_char_digitChar)

lemma formatDecimal_nonempty: "formatDecimal n \<noteq> []"
  by (subst formatDecimal.simps) simp

lemma formatDecimal_digits: "list_all isDigit (formatDecimal n)"
proof (induction n rule: formatDecimal.induct)
  case (1 n)
  show ?case
  proof (cases "n < 10")
    case True
    then show ?thesis
      by (subst formatDecimal.simps) (simp add: isDigit_digitChar)
  next
    case False
    with 1 show ?thesis
      by (subst formatDecimal.simps) (simp add: isDigit_digitChar)
  qed
qed

lemma parseDecimal_snoc: "parseDecimal (s @ [c]) = parseDecimal s * 10 + digitVal c"
  by (simp add: parseDecimal_def)

lemma parseDecimal_formatDecimal: "parseDecimal (formatDecimal n) = n"
proof (induction n rule: formatDecimal.induct)
  case (1 n)
  show ?case
  proof (cases "n < 10")
    case True
    then show ?thesis
      by (subst formatDecimal.simps) (simp add: parseDecimal_def digitVal_digitChar)
  next
    case False
    with 1 have "parseDecimal (formatDecimal (n div 10)) = n div 10" by simp
    with False show ?thesis
      by (subst formatDecimal.simps) (simp add: parseDecimal_snoc digitVal_digitChar)
  qed
qed

lemma length_formatDecimal: "n < 10 ^ k \<Longrightarrow> 0 < k \<Longrightarrow> length (formatDecimal n) \<le> k"
proof (induction n arbitrary: k rule: formatDecimal.induct)
  case (1 n)
  show ?case
  proof (cases "n < 10")
    case True
    with "1.prems" show ?thesis
      by (subst formatDecimal.simps) simp
  next
    case False
    with "1.prems" obtain j where k: "k = Suc j" and j: "0 < j"
      by (cases k; cases "k - 1") auto
    from "1.prems"(1) have "n div 10 < 10 ^ j"
      by (simp add: k less_mult_imp_div_less)
    with "1.IH" [OF False] j have "length (formatDecimal (n div 10)) \<le> j"
      by simp
    with False show ?thesis
      by (subst formatDecimal.simps) (simp add: k)
  qed
qed

lemma isDigit_not_sign: "isDigit c \<Longrightarrow> c \<noteq> CHR ''-'' \<and> c \<noteq> CHR ''+''"
  by (auto simp: isDigit_def)

lemma hd_formatDecimal_not_sign:
  "hd (formatDecimal n) \<noteq> CHR ''-'' \<and> hd (formatDecimal n) \<noteq> CHR ''+''"
proof -
  have "isDigit (hd (formatDecimal n))"
    using formatDecimal_nonempty [of n] formatDecimal_digits [of n]
    by (cases "formatDecimal n") simp_all
  then show ?thesis by (rule isDigit_not_sign)
qed

lemma atoiLoop_digits:
  "list_all isDigit s \<Longrightarrow>
     atoiLoop (int a) s = Some (int (foldl (\<lambda>n c. n * 10 + digitVal c) a s))"
proof (induction s arbitrary: a)
  case Nil
  then show ?case by simp
next
  case (Cons c s)
  then have c: "isDigit c" and s: "list_all isDigit s" by simp_all
  have step: "int a * 10 + int (digitVal c) = int (a * 10 + digitVal c)" by simp
  have "atoiLoop (int a) (c # s) = atoiLoop (int a * 10 + int (digitVal c)) s"
    using c by (simp del: of_nat_add of_nat_mult)
  also have "\<dots> = atoiLoop (int (a * 10 + digitVal c)) s"
    by (simp only: step)
  also have "\<dots> = Some (int (foldl (\<lambda>n c. n * 10 + digitVal c) (a * 10 + digitVal c) s))"
    using s by (rule Cons.IH)
  finally show ?case by simp
qed

lemma Atoi_Itoa_nonneg:
  assumes "0 \<le> i" and "i < 4294967296"
  shows "Atoi (Itoa i) = (i, None)"
proof -
  have fmt: "Itoa i = formatDecimal (nat i)"
    using assms by (simp add: Itoa_def)
  from assms have "nat i < 10 ^ 10" by simp
  then have "length (formatDecimal (nat i)) \<le> 10"
    by (rule length_formatDecimal) simp
  moreover have "0 < length (formatDecimal (nat i))"
    using formatDecimal_nonempty [of "nat i"] by simp
  ultimately have fast: "Atoi (formatDecimal (nat i)) = atoiFast (formatDecimal (nat i))"
    by (simp add: Atoi_def)
  have "atoiLoop 0 (formatDecimal (nat i)) = Some (int (parseDecimal (formatDecimal (nat i))))"
    using atoiLoop_digits [OF formatDecimal_digits, of 0 "nat i"]
    by (simp add: parseDecimal_def)
  then have loop: "atoiLoop 0 (formatDecimal (nat i)) = Some i"
    using assms(1) by (simp add: parseDecimal_formatDecimal)
  show ?thesis
    unfolding fmt fast atoiFast_def Let_def
    using hd_formatDecimal_not_sign [of "nat i"] by (simp add: loop)
qed

lemma sortedRunID_newSourceIDSortedRun: "sortedRunID (newSourceIDSortedRun i) = Some i"
proof -
  have "uint i < 4294967296" using uint_bounded [of i] by simp
  then have "Atoi (Itoa (uint i)) = (uint i, None)"
    by (intro Atoi_Itoa_nonneg) simp_all
  then show ?thesis
    by (simp add: sortedRunID_def newSourceIDSortedRun_def)
qed

text \<open>\<open>Atoi\<close> on strings that are not what \<open>Itoa\<close> writes.\<close>

lemma Atoi_examples:
  "Atoi ''x'' = (0, Some ErrSyntax)"
  "Atoi [] = (0, Some ErrSyntax)"
  "Atoi ''-'' = (0, Some ErrSyntax)"
  "Atoi ''+7'' = (7, None)"
  "Atoi ''-42'' = (- 42, None)"
  "Atoi ''9999999999999999999x'' = (0, Some ErrSyntax)"
  "Atoi ''99999999999999999999x'' = (9223372036854775807, Some ErrRange)"
  "Atoi ''9223372036854775807'' = (9223372036854775807, None)"
  "Atoi ''9223372036854775808'' = (9223372036854775807, Some ErrRange)"
  "Atoi ''-9223372036854775808'' = (- 9223372036854775808, None)"
  "Atoi ''-9223372036854775809'' = (- 9223372036854775808, Some ErrRange)"
  by (simp_all add: Atoi_def atoiFast_def ParseInt_def ParseUint_def isDigit_def digitVal_def)

subsection \<open>Base-32 digits\<close>

lemma dec_Encoding: "d < 32 \<Longrightarrow> dec (Encoding ! d) = of_nat d"
proof -
  have "\<forall>d\<in>set [0..<32]. dec (Encoding ! d) = of_nat d"
    by code_simp
  then show "d < 32 \<Longrightarrow> dec (Encoding ! d) = of_nat d" by simp
qed

lemma Encoding_low: "d < 8 \<Longrightarrow> \<not> CHR ''7'' < Encoding ! d"
proof -
  have "\<forall>d\<in>set [0..<8]. \<not> CHR ''7'' < Encoding ! d"
    by code_simp
  then show "d < 8 \<Longrightarrow> \<not> CHR ''7'' < Encoding ! d" by simp
qed

lemma dec_ulidDigit: "dec (ulidDigit u i) = digit5 u (5 * (25 - i))"
proof -
  have "unat (take_bit 5 (drop_bit (5 * (25 - i)) u)) < 2 ^ 5"
    unfolding unsigned_take_bit_eq by (rule take_bit_nat_less_exp)
  then have "dec (ulidDigit u i) = of_nat (unat (take_bit 5 (drop_bit (5 * (25 - i)) u)))"
    unfolding ulidDigit_def by (intro dec_Encoding) simp
  then show ?thesis by (simp add: digit5_def)
qed

lemma nth_ulid_String: "i < 26 \<Longrightarrow> ulid_String u ! i = ulidDigit u i"
  by (simp add: ulid_String_def)

lemma bit_digit5: "bit (digit5 u p) n \<longleftrightarrow> n < 5 \<and> bit u (p + n)"
  by (auto simp: digit5_def bit_simps dest: bit_imp_le_length)

lemma byte_eqI:
  assumes "\<And>n. n \<in> {0, 1, 2, 3, 4, 5, 6, 7} \<Longrightarrow> bit a n = bit b n"
  shows "a = (b::byte)"
proof (rule bit_eqI)
  fix n
  assume "possible_bit TYPE(byte) n"
  then have "n < 8" by (simp add: possible_bit_def)
  then have "n \<in> {0, 1, 2, 3, 4, 5, 6, 7}" by auto
  then show "bit a n = bit b n" by (rule assms)
qed

text \<open>The five bytes that \<open>Parse\<close> builds from eight digits of an identifier.\<close>

lemma block_byte0:
  "push_bit 3 (digit5 u (m + 35)) OR drop_bit 2 (digit5 u (m + 30))
     = (ucast (drop_bit (m + 32) u) :: byte)"
  by (rule byte_eqI) (auto simp: bit_simps bit_digit5 bit_double_iff ac_simps)

lemma block_byte1:
  "push_bit 6 (digit5 u (m + 30)) OR push_bit 1 (digit5 u (m + 25))
     OR drop_bit 4 (digit5 u (m + 20))
     = (ucast (drop_bit (m + 24) u) :: byte)"
  by (rule byte_eqI) (auto simp: bit_simps bit_digit5 bit_double_iff ac_simps)

lemma block_byte2:
  "push_bit 4 (digit5 u (m + 20)) OR drop_bit 1 (digit5 u (m + 15))
     = (ucast (drop_bit (m + 16) u) :: byte)"
  by (rule byte_eqI) (auto simp: bit_simps bit_digit5 bit_double_iff ac_simps)

lemma block_byte3:
  "push_bit 7 (digit5 u (m + 15)) OR push_bit 2 (digit5 u (m + 10))
     OR drop_bit 3 (digit5 u (m + 5))
     = (ucast (drop_bit (m + 8) u) :: byte)"
  by (rule byte_eqI) (auto simp: bit_simps bit_digit5 bit_double_iff ac_simps)

lemma block_byte4:
  "push_bit 5 (digit5 u (m + 5)) OR digit5 u m = (ucast (drop_bit m u) :: byte)"
  by (rule byte_eqI) (auto simp: bit_simps bit_digit5 bit_double_iff ac_simps)

lemmas block_bytes_80 =
  block_byte0 [of _ 80, simplified] block_byte1 [of _ 80, simplified]
  block_byte2 [of _ 80, simplified] block_byte3 [of _ 80, simplified]
  block_byte4 [of _ 80, simplified]

lemmas block_bytes_40 =
  block_byte0 [of _ 40, simplified] block_byte1 [of _ 40, simplified]
  block_byte2 [of _ 40, simplified] block_byte3 [of _ 40, simplified]
  block_byte4 [of _ 40, simplified]

lemmas block_bytes_0 =
  block_byte0 [of _ 0, simplified] block_byte1 [of _ 0, simplified]
  block_byte2 [of _ 0, simplified] block_byte3 [of _ 0, simplified]
  block_byte4 [of _ 0, simplified]

lemma decodeBlock_String_2:
  "decodeBlock (ulid_String u) 2 =
     [ucast (drop_bit 112 u), ucast (drop_bit 104 u), ucast (drop_bit 96 u),
      ucast (drop_bit 88 u), ucast (drop_bit 80 u)]"
  by (simp add: decodeBlock_def nth_ulid_String dec_ulidDigit block_bytes_80)

lemma decodeBlock_String_10:
  "decodeBlock (ulid_String u) 10 =
     [ucast (drop_bit 72 u), ucast (drop_bit 64 u), ucast (drop_bit 56 u),
      ucast (drop_bit 48 u), ucast (drop_bit 40 u)]"
  by (simp add: decodeBlock_def nth_ulid_String dec_ulidDigit block_bytes_40)

lemma decodeBlock_String_18:
  "decodeBlock (ulid_String u) 18 =
     [ucast (drop_bit 32 u), ucast (drop_bit 24 u), ucast (drop_bit 16 u),
      ucast (drop_bit 8 u), ucast (drop_bit 0 u)]"
  by (simp add: decodeBlock_def nth_ulid_String dec_ulidDigit block_bytes_0)

lemma byte0_String:
  "push_bit 5 (dec (ulid_String u ! 0)) OR dec (ulid_String u ! 1)
     = (ucast (drop_bit 120 u) :: byte)"
  using block_byte4 [of u 120] by (simp add: nth_ulid_String dec_ulidDigit)

lemma glue8:
  "push_bit 8 (drop_bit (m + 8) u) OR ucast (ucast (drop_bit m u) :: byte) = drop_bit m (u::ULID)"
  by (rule bit_eqI) (auto simp: bit_simps)

lemma foldl_bytes:
  "k \<le> 16 \<Longrightarrow>
   foldl (\<lambda>acc b. push_bit 8 acc OR ucast b) 0
     (map (\<lambda>j. (ucast (drop_bit (8 * (15 - j)) u) :: byte)) [0..<k])
     = drop_bit (8 * (16 - k)) (u::ULID)"
proof (induction k)
  case 0
  have "drop_bit 128 u = 0"
    by (rule bit_eqI) (simp add: bit_simps)
  then show ?case by simp
next
  case (Suc k)
  then have k: "k < 16" by simp
  then have idx: "8 * (16 - k) = 8 * (15 - k) + 8" by simp
  from Suc have IH: "foldl (\<lambda>acc b. push_bit 8 acc OR ucast b) 0
      (map (\<lambda>j. (ucast (drop_bit (8 * (15 - j)) u) :: byte)) [0..<k])
     = drop_bit (8 * (15 - k) + 8) u" by (simp add: idx)
  have "16 - Suc k = 15 - k" by simp
  then show ?case
    by (simp add: IH glue8)
qed

lemma ulidOfBytes_bytes:
  "ulidOfBytes
     [ucast (drop_bit 120 u), ucast (drop_bit 112 u), ucast (drop_bit 104 u),
      ucast (drop_bit 96 u), ucast (drop_bit 88 u), ucast (drop_bit 80 u),
      ucast (drop_bit 72 u), ucast (drop_bit 64 u), ucast (drop_bit 56 u),
      ucast (drop_bit 48 u), ucast (drop_bit 40 u), ucast (drop_bit 32 u),
      ucast (drop_bit 24 u), ucast (drop_bit 16 u), ucast (drop_bit 8 u),
      ucast (drop_bit 0 u)] = u"
proof -
  have "[0..<16] = [0, 1, 2, 3, 4, 5, 6, 7, 8, 9, 10, 11, 12, 13, 14, 15::nat]"
    by (simp add: upt_rec)
  with foldl_bytes [of 16 u] show ?thesis
    by (simp add: ulidOfBytes_def)
qed

lemma top_digit_small: "unat (take_bit 5 (drop_bit 125 (u::ULID))) < 8"
proof -
  have "unat (drop_bit 125 u) = unat u div 2 ^ 125"
    unfolding unat_drop_bit_eq by (rule drop_bit_eq_div)
  moreover have "unat u < 8 * 2 ^ 125"
    using unsigned_less [of u] by simp
  ultimately have "unat (drop_bit 125 u) < 8"
    using less_mult_imp_div_less [of "unat u" 8 "2 ^ 125"] by simp
  moreover have "unat (take_bit 5 (drop_bit 125 u)) \<le> unat (drop_bit 125 u)"
    by (simp add: unsigned_take_bit_eq take_bit_nat_eq_self)
  ultimately show ?thesis by simp
qed

lemma first_ulid_String: "\<not> CHR ''7'' < ulid_String u ! 0"
  using Encoding_low [OF top_digit_small [of u]]
  by (simp add: nth_ulid_String ulidDigit_def)

lemma ulid_Parse_String: "ulid_Parse (ulid_String u) = Inr u"
proof -
  have len: "length (ulid_String u) = 26"
    by (simp add: ulid_String_def)
  have "ulidOfBytes
          ((push_bit 5 (dec (ulid_String u ! 0)) OR dec (ulid_String u ! 1))
           # decodeBlock (ulid_String u) 2 @ decodeBlock (ulid_String u) 10
           @ decodeBlock (ulid_String u) 18) = u"
    unfolding byte0_String decodeBlock_String_2 decodeBlock_String_10 decodeBlock_String_18
    using ulidOfBytes_bytes [of u] by simp
  with len first_ulid_String [of u] show ?thesis
    by (simp add: ulid_Parse_def)
qed

text \<open>
  \<open>String\<close> and \<open>Parse\<close> on the identifier of the package's documentation, and \<open>Parse\<close>
  on strings that \<open>String\<close> does not write: a character outside the alphabet is not
  rejected, its \<open>0xFF\<close> goes into the bytes.
\<close>

lemma ulid_String_example:
  "ulid_String 0x01563E3AB5D3D6764C61EFB99302BD5B = ''01ARZ3NDEKTSV4RRFFQ69G5FAV''"
  by (simp add: ulid_String_def ulidDigit_def Encoding_def upt_rec drop_bit_eq_div
      take_bit_eq_mod unat_div unat_mod)

lemma ulid_Parse_examples:
  "ulid_Parse ''01ARZ3NDEKTSV4RRFFQ69G5FAV'' = Inr 0x01563E3AB5D3D6764C61EFB99302BD5B"
  "ulid_Parse ''01arz3ndektsv4rrffq69g5fav'' = Inr 0x01563E3AB5D3D6764C61EFB99302BD5B"
  "ulid_Parse ''81ARZ3NDEKTSV4RRFFQ69G5FAV'' = Inl ErrOverflow"
  "ulid_Parse ''01ARZ3NDEKTSV4RRFFQ69G5FA'' = Inl ErrDataSize"
  "ulid_Parse ''00U00000000000000000000000'' = Inr 0x00F80000000000000000000000000000"
  by code_simp+

lemma sstID_newSourceIDSST: "sstID (newSourceIDSST u) = Some u"
  by (simp add: sstID_def newSourceIDSST_def ulid_Parse_String)

lemma sstID_newSourceIDSortedRun: "sstID (newSourceIDSortedRun i) = None"
  by (simp add: sstID_def newSourceIDSortedRun_def)

lemma sortedRunID_newSourceIDSST: "sortedRunID (newSourceIDSST u) = None"
  by (simp add: sortedRunID_def newSourceIDSST_def)

lemma typ_of_newSourceIDSST: "typ_of (newSourceIDSST u) = SSTID"
  by (simp add: newSourceIDSST_def)

lemma typ_of_newSourceIDSortedRun: "typ_of (newSourceIDSortedRun i) = SortedRunID"
  by (simp add: newSourceIDSortedRun_def)

text \<open>
  C9. A source id built from a sorted-run id gives that id back through \<open>sortedRunID\<close> and
  nothing through \<open>sstID\<close>; a source id built from a file id gives that id back through
  \<open>sstID\<close> and nothing through \<open>sortedRunID\<close>.
\<close>

theorem SourceID_roundtrip:
  "sortedRunID (newSourceIDSortedRun i) = Some i
   \<and> sstID (newSourceIDSortedRun i) = None
   \<and> sstID (newSourceIDSST u) = Some u
   \<and> sortedRunID (newSourceIDSST u) = None"
  by (simp add: sortedRunID_newSourceIDSortedRun sstID_newSourceIDSortedRun
      sstID_newSourceIDSST sortedRunID_newSourceIDSST)

section \<open>submitCompaction\<close>

lemma sourceSRMatches_iff:
  "sourceSRMatches srcs dest \<longleftrightarrow>
     (\<exists>s \<in> set srcs. typ_of s = SortedRunID \<and> word_of_int (fst (Atoi (value_of s))) = dest)"
  by (induction srcs) auto

lemma sortedRunID_eq_Some_iff:
  "sortedRunID s = Some d \<longleftrightarrow>
     typ_of s = SortedRunID \<and> snd (Atoi (value_of s)) = None
     \<and> word_of_int (fst (Atoi (value_of s))) = d"
  by (cases "Atoi (value_of s)") (auto simp: sortedRunID_def split: option.splits)

lemma sourceSRMatches_sortedRunID:
  assumes "\<forall>s \<in> set srcs. typ_of s = SortedRunID \<longrightarrow> sortedRunID s \<noteq> None"
  shows "sourceSRMatches srcs dest \<longleftrightarrow> (\<exists>s \<in> set srcs. sortedRunID s = Some dest)"
proof -
  have "typ_of s = SortedRunID \<and> word_of_int (fst (Atoi (value_of s))) = dest
          \<longleftrightarrow> sortedRunID s = Some dest" if "s \<in> set srcs" for s
  proof (cases "typ_of s = SortedRunID")
    case True
    with assms that obtain d where "sortedRunID s = Some d" by auto
    then show ?thesis by (auto simp: sortedRunID_eq_Some_iff)
  next
    case False
    then show ?thesis by (simp add: sortedRunID_eq_Some_iff)
  qed
  then show ?thesis unfolding sourceSRMatches_iff by blast
qed

lemma checkDestination_eq:
  "checkDestination srs compaction =
     (if (\<exists>sr \<in> set srs. sr_id sr = destination compaction)
         \<and> \<not> oneOfTheSourceSRMatchesDestination compaction
      then Some ErrInvalidCompaction else None)"
  by (induction srs) auto

lemma submitCompaction_eq:
  "submitCompaction c compaction =
     (if compactions c (destination compaction) \<noteq> None
         \<or> ((\<exists>sr \<in> set (compacted (dbState c)). sr_id sr = destination compaction)
             \<and> \<not> oneOfTheSourceSRMatchesDestination compaction)
      then Inl ErrInvalidCompaction
      else Inr (c\<lparr>compactions := (compactions c)(destination compaction \<mapsto> compaction)\<rparr>))"
  by (auto simp: submitCompaction_def checkDestination_eq split: option.splits)

text \<open>
  C3. For a compaction whose sorted-run sources carry values that parse (as every source
  built by \<open>newSourceIDSortedRun\<close> does), \<open>submitCompaction\<close> returns the error
  \<open>ErrInvalidCompaction\<close> exactly when \<open>compactions\<close> holds an entry at the destination,
  or \<open>compacted\<close> has a run with the destination's id and no sorted-run source of the
  compaction is that id; otherwise it returns the state with the compaction stored at its
  destination and \<open>dbState\<close> as it was.
\<close>

theorem submitCompaction_rejects_iff:
  assumes "\<forall>s \<in> set (sources compaction). typ_of s = SortedRunID \<longrightarrow> sortedRunID s \<noteq> None"
  shows "(submitCompaction c compaction = Inl ErrInvalidCompaction \<longleftrightarrow>
            compactions c (destination compaction) \<noteq> None
            \<or> ((\<exists>sr \<in> set (compacted (dbState c)). sr_id sr = destination compaction)
                \<and> \<not> (\<exists>s \<in> set (sources compaction).
                        sortedRunID s = Some (destination compaction))))
         \<and> (submitCompaction c compaction \<noteq> Inl ErrInvalidCompaction \<longrightarrow>
              submitCompaction c compaction =
                Inr \<lparr>dbState = dbState c,
                     compactions = (compactions c)(destination compaction \<mapsto> compaction)\<rparr>)"
proof -
  have m: "oneOfTheSourceSRMatchesDestination compaction \<longleftrightarrow>
             (\<exists>s \<in> set (sources compaction). sortedRunID s = Some (destination compaction))"
    unfolding oneOfTheSourceSRMatchesDestination_def
    using assms by (rule sourceSRMatches_sortedRunID)
  show ?thesis
    unfolding submitCompaction_eq m by (cases c) simp
qed

theorem submitCompaction_rejects_iff_witness:
  "submitCompaction (newCompactorState exampleDB) exampleCompaction =
     Inr \<lparr>dbState = exampleDB, compactions = [3 \<mapsto> exampleCompaction]\<rparr>
   \<and> submitCompaction (newCompactorState exampleDB) (newCompaction [newSourceIDSST 20] 3) =
       Inl ErrInvalidCompaction"
  using submitCompaction_rejects_iff [of exampleCompaction "newCompactorState exampleDB"]
    submitCompaction_rejects_iff [of "newCompaction [newSourceIDSST 20] 3" "newCompactorState exampleDB"]
  by (simp add: exampleCompaction_def newCompaction_def newCompactorState_def exampleDB_def
      sortedRunID_newSourceIDSortedRun sortedRunID_newSourceIDSST
      typ_of_newSourceIDSST typ_of_newSourceIDSortedRun)

text \<open>
  The hypothesis on the sources is needed. \<open>oneOfTheSourceSRMatchesDestination\<close> drops
  the error of \<open>Atoi\<close> and compares the 0 that comes with a syntax error, so a
  sorted-run source whose value does not parse counts as run 0 there, while
  \<open>sortedRunID\<close> gives nothing for it. No source built by \<open>newSourceIDSortedRun\<close> is
  of that kind.
\<close>

lemma submitCompaction_unparsed_source:
  "sortedRunID \<lparr>typ_of = SortedRunID, value_of = ''x''\<rparr> = None
   \<and> submitCompaction
       \<lparr>dbState = exampleDB\<lparr>compacted := [\<lparr>sr_id = 0, files = []\<rparr>]\<rparr>,
        compactions = Map.empty\<rparr>
       (newCompaction [\<lparr>typ_of = SortedRunID, value_of = ''x''\<rparr>] 0)
     \<noteq> Inl ErrInvalidCompaction"
  by (simp add: sortedRunID_def Atoi_def atoiFast_def isDigit_def submitCompaction_eq
      oneOfTheSourceSRMatchesDestination_def newCompaction_def exampleDB_def)

section \<open>refreshDBState\<close>

lemma mergeL0_eq:
  assumes "\<forall>h \<in> set hs. compactedID (handle_id h) \<noteq> None"
  shows "mergeL0 watermark hs acc = Inr (acc @ prefixBeforeWatermark watermark hs)"
  using assms
proof (induction hs arbitrary: acc)
  case Nil
  then show ?case by (simp add: prefixBeforeWatermark_def)
next
  case (Cons h hs)
  from Cons.prems obtain u where u: "handle_id h = Compacted u"
    by (cases "handle_id h") (auto simp: compactedID_def)
  from Cons.prems have rest: "\<forall>h \<in> set hs. compactedID (handle_id h) \<noteq> None" by simp
  show ?case
  proof (cases "watermark \<noteq> None \<and> Some u = watermark")
    case True
    then show ?thesis
      by (auto simp: u prefixBeforeWatermark_def compactedID_def)
  next
    case False
    then have "mergeL0 watermark (h # hs) acc = mergeL0 watermark hs (acc @ [h])"
      by (auto simp: u)
    also have "\<dots> = Inr ((acc @ [h]) @ prefixBeforeWatermark watermark hs)"
      using rest by (rule Cons.IH)
    also have "(acc @ [h]) @ prefixBeforeWatermark watermark hs
                 = acc @ prefixBeforeWatermark watermark (h # hs)"
      using False by (auto simp: u prefixBeforeWatermark_def compactedID_def)
    finally show ?thesis .
  qed
qed

text \<open>
  \<open>prefixBeforeWatermark\<close> is the longest prefix with no entry at the watermark: it
  is a prefix, none of its entries is at the watermark, and the entry that follows it, if
  there is one, is.
\<close>

lemma prefixBeforeWatermark_longest:
  "\<exists>rest. hs = prefixBeforeWatermark watermark hs @ rest
          \<and> (\<forall>h \<in> set (prefixBeforeWatermark watermark hs).
                 watermark = None \<or> compactedID (handle_id h) \<noteq> watermark)
          \<and> (rest = [] \<or> (watermark \<noteq> None \<and> compactedID (handle_id (hd rest)) = watermark))"
proof -
  let ?P = "\<lambda>h. watermark = None \<or> compactedID (handle_id h) \<noteq> watermark"
  have "hs = takeWhile ?P hs @ dropWhile ?P hs"
    by simp
  moreover have "\<forall>h \<in> set (takeWhile ?P hs). ?P h"
    by (auto dest: set_takeWhileD)
  moreover have "dropWhile ?P hs = [] \<or> \<not> ?P (hd (dropWhile ?P hs))"
    using hd_dropWhile [of ?P hs] by blast
  ultimately show ?thesis
    unfolding prefixBeforeWatermark_def by blast
qed

text \<open>
  C4. When every entry of the writer's level-0 list carries a compacted-file id (the data
  model's rule for \<open>l0\<close>), \<open>refreshDBState\<close> succeeds and replaces \<open>dbState\<close> with a state
  whose \<open>l0\<close> is the longest prefix of the writer's list with no entry at the watermark
  the state had before the call (the whole list when there is no watermark or no entry has
  it), whose two counters are the writer's, and whose \<open>compacted\<close> and watermark are as
  they were.
\<close>

theorem refreshDBState_prefix:
  assumes "\<forall>h \<in> set (l0 writerState). compactedID (handle_id h) \<noteq> None"
  shows "refreshDBState c writerState =
           Inr \<lparr>dbState =
                  \<lparr>l0LastCompacted = l0LastCompacted (dbState c),
                   l0 = prefixBeforeWatermark (l0LastCompacted (dbState c)) (l0 writerState),
                   compacted = compacted (dbState c),
                   nextWalSstID = nextWalSstID writerState,
                   lastCompactedWalSSTID = lastCompactedWalSSTID writerState\<rparr>,
                compactions = compactions c\<rparr>"
proof -
  have "mergeL0 (l0LastCompacted (dbState c)) (l0 writerState) []
          = Inr (prefixBeforeWatermark (l0LastCompacted (dbState c)) (l0 writerState))"
    using mergeL0_eq [OF assms, of "l0LastCompacted (dbState c)" "[]"] by simp
  then show ?thesis
    by (cases c, cases "dbState c") (simp add: refreshDBState_def clone_def)
qed

theorem refreshDBState_prefix_witness:
  "refreshDBState
     \<lparr>dbState = exampleDB\<lparr>l0LastCompacted := Some 20, l0 := [sstHandle 30]\<rparr>,
      compactions = Map.empty\<rparr>
     \<lparr>l0LastCompacted = None,
      l0 = [sstHandle 50, sstHandle 40, sstHandle 30, sstHandle 20, sstHandle 10],
      compacted = [],
      nextWalSstID = 9,
      lastCompactedWalSSTID = 8\<rparr>
   = Inr \<lparr>dbState =
            \<lparr>l0LastCompacted = Some 20,
             l0 = [sstHandle 50, sstHandle 40, sstHandle 30],
             compacted = [\<lparr>sr_id = 5, files = []\<rparr>, \<lparr>sr_id = 3, files = []\<rparr>],
             nextWalSstID = 9,
             lastCompactedWalSSTID = 8\<rparr>,
          compactions = Map.empty\<rparr>"
  using refreshDBState_prefix
    [of "\<lparr>l0LastCompacted = None,
          l0 = [sstHandle 50, sstHandle 40, sstHandle 30, sstHandle 20, sstHandle 10],
          compacted = [],
          nextWalSstID = 9,
          lastCompactedWalSSTID = 8\<rparr>"
        "\<lparr>dbState = exampleDB\<lparr>l0LastCompacted := Some 20, l0 := [sstHandle 30]\<rparr>,
          compactions = Map.empty\<rparr>"]
  by (simp add: exampleDB_def sstHandle_def compactedID_def prefixBeforeWatermark_def)

section \<open>finishCompaction\<close>

text \<open>
  C5. When \<open>compactions\<close> has no entry at the output run's id, \<open>finishCompaction\<close>
  returns with no error and the state is the state it was given.
\<close>

theorem finishCompaction_unknown:
  assumes "compactions c (sr_id outputSR) = None"
  shows "finishCompaction c outputSR = Inr c"
  using assms by (simp add: finishCompaction_def)

theorem finishCompaction_unknown_witness:
  "finishCompaction (newCompactorState exampleDB) exampleOutput = Inr (newCompactorState exampleDB)"
  using finishCompaction_unknown [of "newCompactorState exampleDB" exampleOutput]
  by (simp add: newCompactorState_def)

subsection \<open>The loops of finishCompaction\<close>

lemma sstID_Some_typ: "sstID s = Some u \<Longrightarrow> typ_of s = SSTID"
  by (auto simp: sstID_def split: if_splits)

lemma sortedRunID_Some_typ: "sortedRunID s = Some i \<Longrightarrow> typ_of s = SortedRunID"
  by (auto simp: sortedRunID_def split: if_splits)

lemma sstID_Some_sortedRunID: "sstID s = Some u \<Longrightarrow> sortedRunID s = None"
  by (auto simp: sortedRunID_def dest: sstID_Some_typ)

lemma collectSources_eq:
  "collectSources srcs (A, B) =
     (A \<union> set (List.map_filter sstID srcs), B \<union> set (List.map_filter sortedRunID srcs))"
proof (induction srcs arbitrary: A B)
  case Nil
  then show ?case by (simp add: List.map_filter_simps)
next
  case (Cons s srcs)
  show ?case
  proof (cases "sstID s")
    case None
    then show ?thesis
      by (cases "sortedRunID s") (simp_all add: Cons.IH List.map_filter_simps)
  next
    case (Some u)
    then show ?thesis
      by (simp add: Cons.IH List.map_filter_simps sstID_Some_sortedRunID)
  qed
qed

lemma removeCompactedL0_eq:
  "removeCompactedL0 F hs acc =
     (if \<forall>h \<in> set hs. compactedID (handle_id h) \<noteq> None
      then Inr (acc @ filter (\<lambda>h. case compactedID (handle_id h) of
                                    None \<Rightarrow> True
                                  | Some u \<Rightarrow> u \<notin> F) hs)
      else Inl (AssertionFailed ''Expected compactedID not present''))"
proof (induction hs arbitrary: acc)
  case Nil
  then show ?case by simp
next
  case (Cons h hs)
  show ?case
    by (cases "compactedID (handle_id h)") (auto simp: Cons.IH)
qed

lemma insertOutputSR_inserted:
  "insertOutputSR out S srs (acc, True) = (acc @ filter (\<lambda>sr. sr_id sr \<notin> S) srs, True)"
  by (induction srs arbitrary: acc) simp_all

lemma insertOutputSR_pending:
  "insertOutputSR out S srs (acc, False) =
     (if \<exists>sr \<in> set srs. sr_id sr \<le> sr_id out
      then (acc @ filter (\<lambda>sr. sr_id sr \<notin> S) (takeWhile (\<lambda>sr. sr_id out < sr_id sr) srs)
              @ [out]
              @ filter (\<lambda>sr. sr_id sr \<notin> S) (dropWhile (\<lambda>sr. sr_id out < sr_id sr) srs), True)
      else (acc @ filter (\<lambda>sr. sr_id sr \<notin> S) srs, False))"
proof (induction srs arbitrary: acc)
  case Nil
  then show ?case by simp
next
  case (Cons sr srs)
  show ?case
  proof (cases "sr_id sr \<le> sr_id out")
    case True
    then have "\<not> sr_id out < sr_id sr" by simp
    with True show ?thesis
      by (simp add: insertOutputSR_inserted)
  next
    case False
    then have "sr_id out < sr_id sr" by simp
    with False show ?thesis
      by (simp add: Cons.IH)
  qed
qed

lemma takeWhile_all_above:
  "\<not> (\<exists>sr \<in> set srs. sr_id sr \<le> sr_id out) \<Longrightarrow>
     takeWhile (\<lambda>sr. sr_id out < sr_id sr) srs = srs
     \<and> dropWhile (\<lambda>sr. sr_id out < sr_id sr) srs = []"
  by (induction srs) auto

lemma insertOutputSR_rebuilt:
  "(case insertOutputSR out S srs ([], False) of
      (newCompacted, inserted) \<Rightarrow> if \<not> inserted then newCompacted @ [out] else newCompacted)
   = rebuiltCompacted S out srs"
proof (cases "\<exists>sr \<in> set srs. sr_id sr \<le> sr_id out")
  case True
  then show ?thesis
    by (simp add: insertOutputSR_pending rebuiltCompacted_def)
next
  case False
  note tw = takeWhile_all_above [OF False, THEN conjunct1]
  note dw = takeWhile_all_above [OF False, THEN conjunct2]
  have "insertOutputSR out S srs ([], False)
          = (filter (\<lambda>sr. sr_id sr \<notin> S) srs, False)"
    using False by (simp add: insertOutputSR_pending)
  then show ?thesis
    by (simp add: rebuiltCompacted_def tw dw)
qed

lemma assertInIDOrderFrom_eq:
  "assertInIDOrderFrom lastID srs =
     (if (\<forall>sr \<in> set srs. sr_id sr < lastID) \<and> sorted_wrt (\<lambda>a b. sr_id b < sr_id a) srs
      then None
      else Some (AssertionFailed ''compacted sortedRuns not in decreasing order''))"
proof (induction srs arbitrary: lastID)
  case Nil
  then show ?case by simp
next
  case (Cons sr srs)
  show ?case
  proof (cases "sr_id sr < lastID")
    case True
    then have "(\<forall>x \<in> set srs. sr_id x < sr_id sr) \<Longrightarrow> (\<forall>x \<in> set srs. sr_id x < lastID)"
      by auto
    with True show ?thesis
      by (auto simp: Cons.IH)
  next
    case False
    then show ?thesis by simp
  qed
qed

lemma strictly_decreasing_distinct:
  "sorted_wrt (\<lambda>a b. sr_id b < sr_id a) srs \<Longrightarrow> distinct (map sr_id srs)"
  by (induction srs) auto

lemma strictlyDecreasingByID_iff:
  "strictlyDecreasingByID srs \<longleftrightarrow> sorted_wrt (\<lambda>a b. sr_id b < sr_id a) srs"
  by (auto simp: strictlyDecreasingByID_def strictly_decreasing_distinct)

lemma assertCompactedSRsInIDOrder_eq:
  "assertCompactedSRsInIDOrder srs =
     (if strictlyDecreasingByID srs \<and> (\<forall>sr \<in> set srs. sr_id sr < 4294967295)
      then None
      else Some (AssertionFailed ''compacted sortedRuns not in decreasing order''))"
  by (auto simp: assertCompactedSRsInIDOrder_def assertInIDOrderFrom_eq strictlyDecreasingByID_iff)

lemma assertCompactedSRsInIDOrder_None:
  "assertCompactedSRsInIDOrder srs = None \<Longrightarrow> strictlyDecreasingByID srs"
  by (simp add: assertCompactedSRsInIDOrder_eq split: if_splits)

subsection \<open>finishCompaction on a registered compaction\<close>

lemma finishCompaction_registered:
  assumes "compactions c (sr_id out) = Some compaction"
  shows "finishCompaction c out =
     (if \<exists>h \<in> set (l0 (dbState c)). compactedID (handle_id h) = None
      then Inl (AssertionFailed ''Expected compactedID not present'')
      else if assertCompactedSRsInIDOrder
                (rebuiltCompacted (sourceRunIDs compaction) out (compacted (dbState c))) \<noteq> None
      then Inl (AssertionFailed ''compacted sortedRuns not in decreasing order'')
      else if sources compaction = []
      then Inl (AssertionFailed ''compaction should not be empty'')
      else Inr \<lparr>dbState =
                  \<lparr>l0LastCompacted =
                     (case sstID (hd (sources compaction)) of
                        Some u \<Rightarrow> Some u
                      | None \<Rightarrow> l0LastCompacted (dbState c)),
                   l0 = remainingL0 (sourceFileIDs compaction) (l0 (dbState c)),
                   compacted = rebuiltCompacted (sourceRunIDs compaction) out (compacted (dbState c)),
                   nextWalSstID = nextWalSstID (dbState c),
                   lastCompactedWalSSTID = lastCompactedWalSSTID (dbState c)\<rparr>,
                compactions = (compactions c)(sr_id out := None)\<rparr>)"
proof -
  have sets: "collectSources (sources compaction) ({}, {}) =
      (sourceFileIDs compaction, set (List.map_filter sortedRunID (sources compaction)))"
    by (simp add: collectSources_eq sourceFileIDs_def)
  have runs: "insert (destination compaction)
      (set (List.map_filter sortedRunID (sources compaction))) = sourceRunIDs compaction"
    by (simp add: sourceRunIDs_def)
  have l0s: "removeCompactedL0 (sourceFileIDs compaction) (l0 (dbState c)) [] =
     (if \<forall>h \<in> set (l0 (dbState c)). compactedID (handle_id h) \<noteq> None
      then Inr (remainingL0 (sourceFileIDs compaction) (l0 (dbState c)))
      else Inl (AssertionFailed ''Expected compactedID not present''))"
    by (simp add: removeCompactedL0_eq remainingL0_def)
  have order: "assertCompactedSRsInIDOrder srs \<noteq> None \<Longrightarrow>
      assertCompactedSRsInIDOrder srs =
        Some (AssertionFailed ''compacted sortedRuns not in decreasing order'')" for srs
    by (simp add: assertCompactedSRsInIDOrder_eq split: if_splits)
  obtain nc ins where loop:
    "insertOutputSR out (sourceRunIDs compaction) (compacted (dbState c)) ([], False) = (nc, ins)"
    by (cases "insertOutputSR out (sourceRunIDs compaction) (compacted (dbState c)) ([], False)")
  have rebuilt: "(if \<not> ins then nc @ [out] else nc)
      = rebuiltCompacted (sourceRunIDs compaction) out (compacted (dbState c))"
    using insertOutputSR_rebuilt [of out "sourceRunIDs compaction" "compacted (dbState c)"] by (simp add: loop)
  have main: "finishCompaction c out =
     (case removeCompactedL0 (sourceFileIDs compaction) (l0 (dbState c)) [] of
        Inl e \<Rightarrow> Inl e
      | Inr newL0 \<Rightarrow>
          (case assertCompactedSRsInIDOrder
                  (rebuiltCompacted (sourceRunIDs compaction) out (compacted (dbState c))) of
             Some e \<Rightarrow> Inl e
           | None \<Rightarrow>
               (if sources compaction = []
                then Inl (AssertionFailed ''compaction should not be empty'')
                else Inr \<lparr>dbState =
                            (case sstID (hd (sources compaction)) of
                               Some u \<Rightarrow> (dbState c)\<lparr>l0LastCompacted := Some u\<rparr>
                             | None \<Rightarrow> dbState c)
                            \<lparr>l0 := newL0,
                             compacted := rebuiltCompacted (sourceRunIDs compaction) out (compacted (dbState c))\<rparr>,
                          compactions = (compactions c)(sr_id out := None)\<rparr>)))"
  proof (cases ins)
    case True
    with rebuilt have "nc = rebuiltCompacted (sourceRunIDs compaction) out (compacted (dbState c))" by simp
    with True loop assms show ?thesis
      by (simp add: finishCompaction_def Let_def sets runs clone_def
          split: sum.splits option.splits)
  next
    case False
    with rebuilt have "nc @ [out] = rebuiltCompacted (sourceRunIDs compaction) out (compacted (dbState c))"
      by simp
    with False loop assms show ?thesis
      by (simp add: finishCompaction_def Let_def sets runs clone_def
          split: sum.splits option.splits)
  qed
  show ?thesis
  proof (cases "\<exists>h \<in> set (l0 (dbState c)). compactedID (handle_id h) = None")
    case True
    then show ?thesis
      unfolding main l0s by auto
  next
    case noWAL: False
    show ?thesis
    proof (cases "assertCompactedSRsInIDOrder
                    (rebuiltCompacted (sourceRunIDs compaction) out (compacted (dbState c)))")
      case (Some e)
      then have "assertCompactedSRsInIDOrder
                    (rebuiltCompacted (sourceRunIDs compaction) out (compacted (dbState c)))
                 = Some (AssertionFailed ''compacted sortedRuns not in decreasing order'')"
        using order by blast
      then show ?thesis
        unfolding main l0s using noWAL by simp
    next
      case None
      show ?thesis
        unfolding main l0s using noWAL None
        by (cases "dbState c"; cases "sstID (hd (sources compaction))") simp_all
    qed
  qed
qed

subsection \<open>The rebuilt list keeps the order\<close>

lemma dropWhile_below:
  assumes "sorted_wrt (\<lambda>a b. sr_id b < sr_id a) srs"
    and "sr \<in> set (dropWhile (\<lambda>sr. sr_id out < sr_id sr) srs)"
  shows "sr_id sr \<le> sr_id out"
  using assms
proof (induction srs)
  case Nil
  then show ?case by simp
next
  case (Cons x srs)
  show ?case
  proof (cases "sr_id out < sr_id x")
    case True
    with Cons show ?thesis by simp
  next
    case False
    with Cons.prems have "sr = x \<or> sr \<in> set srs" by simp
    moreover from Cons.prems(1) have "\<forall>y \<in> set srs. sr_id y < sr_id x" by simp
    ultimately show ?thesis using False by auto
  qed
qed

lemma rebuiltCompacted_in_order:
  assumes "strictlyDecreasingByID srs" and "sr_id out \<in> S"
  shows "strictlyDecreasingByID (rebuiltCompacted S out srs)"
proof -
  let ?R = "\<lambda>a b. sr_id b < sr_id (a::SortedRun)"
  let ?P = "\<lambda>sr. sr_id out < sr_id sr"
  let ?keep = "\<lambda>sr. sr_id sr \<notin> S"
  from assms(1) have sorted: "sorted_wrt ?R srs"
    by (simp add: strictlyDecreasingByID_iff)
  then have split: "sorted_wrt ?R (takeWhile ?P srs @ dropWhile ?P srs)"
    by simp
  note parts = split [unfolded sorted_wrt_append]
  from parts have A0: "sorted_wrt ?R (takeWhile ?P srs)" by (rule conjunct1)
  from parts have B0: "sorted_wrt ?R (dropWhile ?P srs)" by (rule conjunct2 [THEN conjunct1])
  from parts have AB:
    "\<forall>a \<in> set (takeWhile ?P srs). \<forall>b \<in> set (dropWhile ?P srs). ?R a b"
    by (rule conjunct2 [THEN conjunct2])
  from A0 have A: "sorted_wrt ?R (filter ?keep (takeWhile ?P srs))"
    by (rule sorted_wrt_filter)
  from B0 have B: "sorted_wrt ?R (filter ?keep (dropWhile ?P srs))"
    by (rule sorted_wrt_filter)
  have above: "\<forall>a \<in> set (filter ?keep (takeWhile ?P srs)). ?R a out"
    by (auto dest: set_takeWhileD)
  note dest = assms(2)
  have below: "\<forall>b \<in> set (filter ?keep (dropWhile ?P srs)). ?R out b"
  proof
    fix b
    assume b: "b \<in> set (filter ?keep (dropWhile ?P srs))"
    then have "sr_id b \<le> sr_id out"
      using dropWhile_below [OF sorted, of b out] by simp
    moreover from b dest have "sr_id b \<noteq> sr_id out" by auto
    ultimately show "sr_id b < sr_id out" by simp
  qed
  have AB': "\<forall>a \<in> set (filter ?keep (takeWhile ?P srs)).
              \<forall>b \<in> set (filter ?keep (dropWhile ?P srs)). ?R a b"
    using AB by simp
  have tail: "sorted_wrt ?R (out # filter ?keep (dropWhile ?P srs))"
    using B below by (simp only: sorted_wrt.simps simp_thms)
  have cross: "\<forall>a \<in> set (filter ?keep (takeWhile ?P srs)).
                 \<forall>b \<in> set (out # filter ?keep (dropWhile ?P srs)). ?R a b"
    using above AB' by (metis set_ConsD)
  have "sorted_wrt ?R (filter ?keep (takeWhile ?P srs)
                        @ (out # filter ?keep (dropWhile ?P srs)))"
    unfolding sorted_wrt_append using A tail cross by blast
  then have "sorted_wrt ?R (rebuiltCompacted S out srs)"
    by (simp only: rebuiltCompacted_def append_Cons append_Nil)
  then show ?thesis by (simp add: strictlyDecreasingByID_iff)
qed

lemma set_rebuiltCompacted:
  "set (rebuiltCompacted S out srs) \<subseteq> insert out (set srs)"
  by (auto simp: rebuiltCompacted_def dest: set_takeWhileD set_dropWhileD)

text \<open>
  On a state that satisfies the data model (\<open>compacted\<close> strictly decreasing), with the
  compaction stored under its destination as \<open>submitCompaction\<close> stores it, the order
  assertion of \<open>finishCompaction\<close> holds, provided no id is \<open>math.MaxUint32\<close>: the
  assertion starts from that value and compares strictly.
\<close>

lemma order_assertion_holds:
  assumes "strictlyDecreasingByID srs" and "sr_id out \<in> S"
    and "\<forall>sr \<in> set srs. sr_id sr < 4294967295" and "sr_id out < 4294967295"
  shows "assertCompactedSRsInIDOrder (rebuiltCompacted S out srs) = None"
proof -
  have "\<forall>sr \<in> set (rebuiltCompacted S out srs). sr_id sr < 4294967295"
    using set_rebuiltCompacted [of S out srs] assms(3,4) by auto
  with rebuiltCompacted_in_order [OF assms(1,2)] show ?thesis
    by (simp add: assertCompactedSRsInIDOrder_eq)
qed

subsection \<open>Sources built by the constructors\<close>

lemma sstID_encodeSource:
  "sstID (encodeSource src) = (case src of SortedRunSource i \<Rightarrow> None | SSTSource u \<Rightarrow> Some u)"
  by (cases src) (simp_all add: encodeSource_def sstID_newSourceIDSST sstID_newSourceIDSortedRun)

lemma sortedRunID_encodeSource:
  "sortedRunID (encodeSource src) =
     (case src of SortedRunSource i \<Rightarrow> Some i | SSTSource u \<Rightarrow> None)"
  by (cases src)
    (simp_all add: encodeSource_def sortedRunID_newSourceIDSST sortedRunID_newSourceIDSortedRun)

lemma map_filter_sstID_encode:
  "List.map_filter sstID (map encodeSource srcs) = [u. SSTSource u \<leftarrow> srcs]"
  by (induction srcs) (auto simp: List.map_filter_simps sstID_encodeSource split: Source.splits)

lemma map_filter_sortedRunID_encode:
  "List.map_filter sortedRunID (map encodeSource srcs) = [i. SortedRunSource i \<leftarrow> srcs]"
  by (induction srcs)
    (auto simp: List.map_filter_simps sortedRunID_encodeSource split: Source.splits)

text \<open>
  On sources built by the constructors, the sets that \<open>finishCompaction\<close> fills are the
  ids the compaction consumes.
\<close>

lemma sourceIDs_encoded:
  assumes "sources compaction = map encodeSource srcs"
  shows "sourceFileIDs compaction = consumedFiles srcs"
    and "sourceRunIDs compaction = consumedRuns srcs (destination compaction)"
  using assms
  by (simp_all add: sourceFileIDs_def sourceRunIDs_def consumedFiles_def consumedRuns_def
      map_filter_sstID_encode map_filter_sortedRunID_encode)

subsection \<open>What finishCompaction commits\<close>

text \<open>
  \<open>finishCompaction\<close> does not commit for every registered compaction: one of its fatal
  assertions may fire. A compaction with no source is accepted by \<open>submitCompaction\<close>
  and registered, and \<open>finishCompaction\<close> for it aborts.
\<close>

theorem finishCompaction_aborts_without_sources:
  "submitCompaction (newCompactorState exampleDB) (newCompaction [] 4)
     = Inr \<lparr>dbState = exampleDB, compactions = [4 \<mapsto> newCompaction [] 4]\<rparr>
   \<and> compactions \<lparr>dbState = exampleDB, compactions = [4 \<mapsto> newCompaction [] 4]\<rparr>
         (sr_id \<lparr>sr_id = 4, files = [sstHandle 40]\<rparr>)
       = Some (newCompaction [] 4)
   \<and> finishCompaction \<lparr>dbState = exampleDB, compactions = [4 \<mapsto> newCompaction [] 4]\<rparr>
         \<lparr>sr_id = 4, files = [sstHandle 40]\<rparr>
       = Inl (AssertionFailed ''compaction should not be empty'')"
proof -
  let ?c = "\<lparr>dbState = exampleDB, compactions = [4 \<mapsto> newCompaction [] 4]\<rparr>"
  let ?out = "\<lparr>sr_id = 4, files = [sstHandle 40]\<rparr>"
  have submit: "submitCompaction (newCompactorState exampleDB) (newCompaction [] 4) = Inr ?c"
    by (simp add: submitCompaction_eq newCompaction_def newCompactorState_def exampleDB_def)
  have registered: "compactions ?c (sr_id ?out) = Some (newCompaction [] 4)"
    by simp
  have "finishCompaction ?c ?out = Inl (AssertionFailed ''compaction should not be empty'')"
    unfolding finishCompaction_registered [OF registered]
    by (simp add: newCompaction_def exampleDB_def sstHandle_def compactedID_def
        rebuiltCompacted_def sourceRunIDs_def List.map_filter_simps
        assertCompactedSRsInIDOrder_def)
  with submit registered show ?thesis by simp
qed

text \<open>
  C2. For a state with a compaction registered at the output run's id, whose sources are
  built by the constructors and number at least one, when every level-0 entry carries a
  compacted-file id and the rebuilt list is strictly decreasing by id with every id below
  \<open>math.MaxUint32\<close> (so that none of the fatal assertions of \<open>finishCompaction\<close> fires),
  \<open>finishCompaction\<close> returns a state in which (a) \<open>l0\<close> is the previous \<open>l0\<close>, in
  order, without the files whose ids are file sources of the compaction; (b) \<open>compacted\<close>
  is the previous list without the runs whose ids are sorted-run sources or the
  destination, with the output run in front of the first previous run whose id is at most
  its own, or at the end when there is none; (c) the compaction's entry is gone from
  \<open>compactions\<close>.
\<close>

theorem finishCompaction_commits:
  assumes "compactions c (sr_id outputSR) = Some compaction"
    and "sources compaction = map encodeSource srcs"
    and "srcs \<noteq> []"
    and "\<forall>h \<in> set (l0 (dbState c)). compactedID (handle_id h) \<noteq> None"
    and "strictlyDecreasingByID
           (rebuiltCompacted (consumedRuns srcs (destination compaction)) outputSR
              (compacted (dbState c)))"
    and "\<forall>sr \<in> set (rebuiltCompacted (consumedRuns srcs (destination compaction)) outputSR
                       (compacted (dbState c))). sr_id sr < 4294967295"
  shows "\<exists>c'. finishCompaction c outputSR = Inr c'
           \<and> l0 (dbState c') = remainingL0 (consumedFiles srcs) (l0 (dbState c))
           \<and> compacted (dbState c') =
               rebuiltCompacted (consumedRuns srcs (destination compaction)) outputSR
                 (compacted (dbState c))
           \<and> compactions c' = (compactions c)(sr_id outputSR := None)"
proof -
  note ids = sourceIDs_encoded [OF assms(2)]
  have "sources compaction \<noteq> []"
    using assms(2,3) by simp
  moreover have "assertCompactedSRsInIDOrder
      (rebuiltCompacted (consumedRuns srcs (destination compaction)) outputSR
         (compacted (dbState c))) = None"
    using assms(5,6) by (simp add: assertCompactedSRsInIDOrder_eq)
  ultimately show ?thesis
    using assms(4) by (simp add: finishCompaction_registered [OF assms(1)] ids)
qed

theorem finishCompaction_commits_witness:
  "\<exists>c'. finishCompaction \<lparr>dbState = exampleDB4, compactions = [4 \<mapsto> exampleCompaction4]\<rparr>
           \<lparr>sr_id = 4, files = [sstHandle 40]\<rparr> = Inr c'
        \<and> l0 (dbState c') = [sstHandle 30]
        \<and> compacted (dbState c') =
            [\<lparr>sr_id = 7, files = []\<rparr>, \<lparr>sr_id = 4, files = [sstHandle 40]\<rparr>,
             \<lparr>sr_id = 1, files = []\<rparr>]
        \<and> compactions c' = Map.empty"
  using finishCompaction_commits
    [of "\<lparr>dbState = exampleDB4, compactions = [4 \<mapsto> exampleCompaction4]\<rparr>"
        "\<lparr>sr_id = 4, files = [sstHandle 40]\<rparr>" exampleCompaction4 exampleSources4]
  by (simp add: exampleDB4_def exampleCompaction4_def exampleSources4_def newCompaction_def
      sstHandle_def compactedID_def remainingL0_def rebuiltCompacted_def
      consumedFiles_def consumedRuns_def strictlyDecreasingByID_def)




text \<open>
  C10. \<open>submitCompaction\<close> accepts a compaction with no source whose destination is
  neither registered nor the id of a run of \<open>compacted\<close>; on a state that satisfies the
  data model, \<open>finishCompaction\<close> for that destination then passes its other assertions
  and aborts on \<open>compaction should not be empty\<close>.
\<close>

theorem empty_compaction_reaches_assertion:
  assumes "sources compaction = []"
    and "compactions c (destination compaction) = None"
    and "\<forall>sr \<in> set (compacted (dbState c)). sr_id sr \<noteq> destination compaction"
    and "strictlyDecreasingByID (compacted (dbState c))"
    and "\<forall>sr \<in> set (compacted (dbState c)). sr_id sr < 4294967295"
    and "destination compaction < 4294967295"
    and "\<forall>h \<in> set (l0 (dbState c)). compactedID (handle_id h) \<noteq> None"
    and "sr_id outputSR = destination compaction"
  shows "\<exists>c'. submitCompaction c compaction = Inr c'
           \<and> finishCompaction c' outputSR =
               Inl (AssertionFailed ''compaction should not be empty'')"
proof -
  let ?c' = "c\<lparr>compactions := (compactions c)(destination compaction \<mapsto> compaction)\<rparr>"
  have submit: "submitCompaction c compaction = Inr ?c'"
    using assms(2,3) by (simp add: submitCompaction_eq)
  have registered: "compactions ?c' (sr_id outputSR) = Some compaction"
    using assms(8) by simp
  have "sr_id outputSR \<in> sourceRunIDs compaction"
    using assms(8) by (simp add: sourceRunIDs_def)
  then have order: "assertCompactedSRsInIDOrder
                 (rebuiltCompacted (sourceRunIDs compaction) outputSR (compacted (dbState ?c')))
               = None"
    using assms(4,5,6,8) by (intro order_assertion_holds) simp_all
  have "finishCompaction ?c' outputSR = Inl (AssertionFailed ''compaction should not be empty'')"
    unfolding finishCompaction_registered [OF registered]
    using assms(1,7) order by simp
  with submit show ?thesis by simp
qed

theorem empty_compaction_reaches_assertion_witness:
  "\<exists>c'. submitCompaction (newCompactorState exampleDB) (newCompaction [] 4) = Inr c'
         \<and> finishCompaction c' \<lparr>sr_id = 4, files = []\<rparr> =
             Inl (AssertionFailed ''compaction should not be empty'')"
  using empty_compaction_reaches_assertion
    [of "newCompaction [] 4" "newCompactorState exampleDB" "\<lparr>sr_id = 4, files = []\<rparr>"]
  by (simp add: newCompaction_def newCompactorState_def exampleDB_def sstHandle_def
      compactedID_def strictlyDecreasingByID_def)

section \<open>The order of compacted is invariant\<close>

lemma submitCompaction_dbState:
  "submitCompaction c compaction = Inr c' \<Longrightarrow> dbState c' = dbState c"
  by (auto simp: submitCompaction_eq split: if_splits)

lemma refreshDBState_compacted:
  "refreshDBState c writerState = Inr c' \<Longrightarrow>
     compacted (dbState c') = compacted (dbState c)"
  by (auto simp: refreshDBState_def Let_def clone_def split: sum.splits)

lemma finishCompaction_in_order:
  assumes "finishCompaction c outputSR = Inr c'"
    and "strictlyDecreasingByID (compacted (dbState c))"
  shows "strictlyDecreasingByID (compacted (dbState c'))"
proof (cases "compactions c (sr_id outputSR)")
  case None
  with assms show ?thesis by (simp add: finishCompaction_def)
next
  case (Some compaction)
  from assms(1) have
    "assertCompactedSRsInIDOrder
       (rebuiltCompacted (sourceRunIDs compaction) outputSR (compacted (dbState c))) = None"
    and "compacted (dbState c') =
           rebuiltCompacted (sourceRunIDs compaction) outputSR (compacted (dbState c))"
    unfolding finishCompaction_registered [OF Some] by (auto split: if_splits)
  then show ?thesis
    by (simp add: assertCompactedSRsInIDOrder_None)
qed

lemma applyCall_in_order:
  assumes "applyCall c call = Inr c'"
    and "strictlyDecreasingByID (compacted (dbState c))"
  shows "strictlyDecreasingByID (compacted (dbState c'))"
proof (cases call)
  case (Submit compaction)
  with assms show ?thesis
    by (simp add: applyCall_def submitCompaction_dbState)
next
  case (Refresh writerState)
  with assms show ?thesis
    by (simp add: applyCall_def refreshDBState_compacted)
next
  case (Finish outputSR)
  with assms show ?thesis
    by (simp add: applyCall_def finishCompaction_in_order)
qed

text \<open>
  C1. From a state whose \<open>compacted\<close> list is strictly decreasing by id with no duplicate
  ids, after any sequence of calls of \<open>submitCompaction\<close>, \<open>refreshDBState\<close> and
  \<open>finishCompaction\<close> that all succeed, the \<open>compacted\<close> list of the state is strictly
  decreasing by id with no duplicate ids.
\<close>

theorem compacted_stays_in_order:
  assumes "strictlyDecreasingByID (compacted (dbState c))"
    and "applyCalls c calls = Inr c'"
  shows "strictlyDecreasingByID (compacted (dbState c'))"
  using assms
proof (induction calls arbitrary: c)
  case Nil
  then show ?case by simp
next
  case (Cons call calls)
  from Cons.prems(2) obtain c1 where
    step: "applyCall c call = Inr c1" and rest: "applyCalls c1 calls = Inr c'"
    by (auto split: sum.splits)
  from step Cons.prems(1) have "strictlyDecreasingByID (compacted (dbState c1))"
    by (rule applyCall_in_order)
  then show ?case using rest by (rule Cons.IH)
qed

lemma example_calls:
  "applyCalls (newCompactorState exampleDB)
     [Submit exampleCompaction, Refresh exampleWriterState, Finish exampleOutput]
   = Inr \<lparr>dbState =
            \<lparr>l0LastCompacted = Some 20,
             l0 = [sstHandle 50, sstHandle 30],
             compacted = [\<lparr>sr_id = 5, files = []\<rparr>, exampleOutput],
             nextWalSstID = 6,
             lastCompactedWalSSTID = 5\<rparr>,
          compactions = Map.empty\<rparr>"
proof -
  let ?c1 = "\<lparr>dbState = exampleDB, compactions = [3 \<mapsto> exampleCompaction]\<rparr>"
  let ?db2 = "\<lparr>l0LastCompacted = None,
               l0 = [sstHandle 50, sstHandle 30, sstHandle 20, sstHandle 10],
               compacted = [\<lparr>sr_id = 5, files = []\<rparr>, \<lparr>sr_id = 3, files = []\<rparr>],
               nextWalSstID = 6,
               lastCompactedWalSSTID = 5\<rparr>"
  let ?c2 = "\<lparr>dbState = ?db2, compactions = [3 \<mapsto> exampleCompaction]\<rparr>"
  have s1: "submitCompaction (newCompactorState exampleDB) exampleCompaction = Inr ?c1"
    by (simp add: submitCompaction_eq oneOfTheSourceSRMatchesDestination_def
        exampleCompaction_def newCompaction_def newCompactorState_def exampleDB_def
        newSourceIDSortedRun_def newSourceIDSST_def Atoi_Itoa_nonneg)
  have s2: "refreshDBState ?c1 exampleWriterState = Inr ?c2"
    by (simp add: refreshDBState_def clone_def exampleDB_def exampleWriterState_def
        sstHandle_def)
  have registered: "compactions ?c2 (sr_id exampleOutput) = Some exampleCompaction"
    by (simp add: exampleOutput_def)
  have s3: "finishCompaction ?c2 exampleOutput =
      Inr \<lparr>dbState =
            \<lparr>l0LastCompacted = Some 20,
             l0 = [sstHandle 50, sstHandle 30],
             compacted = [\<lparr>sr_id = 5, files = []\<rparr>, exampleOutput],
             nextWalSstID = 6,
             lastCompactedWalSSTID = 5\<rparr>,
          compactions = Map.empty\<rparr>"
    unfolding finishCompaction_registered [OF registered]
    by (simp add: exampleOutput_def exampleCompaction_def newCompaction_def
        sstHandle_def compactedID_def remainingL0_def rebuiltCompacted_def
        sourceFileIDs_def sourceRunIDs_def List.map_filter_simps
        sstID_newSourceIDSST sstID_newSourceIDSortedRun
        sortedRunID_newSourceIDSST sortedRunID_newSourceIDSortedRun
        assertCompactedSRsInIDOrder_def)
  show ?thesis
    by (simp add: applyCall_def s1 s2 s3)
qed

theorem compacted_stays_in_order_witness:
  "strictlyDecreasingByID (compacted exampleDB)
   \<and> strictlyDecreasingByID [\<lparr>sr_id = 5, files = []\<rparr>, exampleOutput]"
  using compacted_stays_in_order [OF _ example_calls]
  by (simp add: newCompactorState_def exampleDB_def strictlyDecreasingByID_def)

section \<open>SortedRunIterator\<close>

lemma nextEntry_step:
  assumes "\<forall>sst \<in> set pending. ts sst \<noteq> None"
  shows "\<exists>kvs' pending'.
           nextEntry ts kvs pending =
             Inr (case kvs @ concat (map (fileContent ts) pending) of
                    [] \<Rightarrow> None
                  | kv # rest \<Rightarrow> Some kv, kvs', pending')
           \<and> kvs' @ concat (map (fileContent ts) pending')
               = tl (kvs @ concat (map (fileContent ts) pending))
           \<and> set pending' \<subseteq> set pending"
  using assms
proof (induction ts kvs pending rule: nextEntry.induct)
  case (1 ts kv rest pending)
  then show ?case by simp
next
  case (2 ts)
  then show ?case by simp
next
  case (3 ts sst pending)
  from "3.prems" obtain kvs where kvs: "ts sst = Some kvs"
    by auto
  from "3.prems" have "\<forall>sst \<in> set pending. ts sst \<noteq> None"
    by simp
  with "3.IH" [OF kvs] obtain kvs' pending' where
    "nextEntry ts kvs pending =
       Inr (case kvs @ concat (map (fileContent ts) pending) of
              [] \<Rightarrow> None
            | kv # rest \<Rightarrow> Some kv, kvs', pending')"
    and "kvs' @ concat (map (fileContent ts) pending')
           = tl (kvs @ concat (map (fileContent ts) pending))"
    and "set pending' \<subseteq> set pending"
    by blast
  moreover have "fileContent ts sst = kvs"
    by (simp add: fileContent_def kvs)
  ultimately show ?case
    by (auto simp: kvs)
qed

lemma Next_step:
  assumes "\<forall>sst \<in> set (pendingSSTs iter). ts sst \<noteq> None"
  shows "\<exists>iter'.
           Next ts iter =
             Inr (case remainingKVs ts iter of [] \<Rightarrow> None | kv # rest \<Rightarrow> Some kv, iter')
           \<and> remainingKVs ts iter' = tl (remainingKVs ts iter)
           \<and> set (pendingSSTs iter') \<subseteq> set (pendingSSTs iter)"
proof -
  from nextEntry_step [OF assms, of "currentKVs iter"] obtain kvs' pending' where
    "nextEntry ts (currentKVs iter) (pendingSSTs iter) =
       Inr (case remainingKVs ts iter of [] \<Rightarrow> None | kv # rest \<Rightarrow> Some kv, kvs', pending')"
    and "kvs' @ concat (map (fileContent ts) pending') = tl (remainingKVs ts iter)"
    and "set pending' \<subseteq> set (pendingSSTs iter)"
    unfolding remainingKVs_def by blast
  then show ?thesis
    by (simp add: Next_def remainingKVs_def)
qed

lemma nextCalls_results:
  assumes "\<forall>sst \<in> set (pendingSSTs iter). ts sst \<noteq> None"
  shows "\<exists>iter'.
           nextCalls ts n iter =
             Inr (map Some (take n (remainingKVs ts iter))
                    @ replicate (n - length (remainingKVs ts iter)) None, iter')
           \<and> remainingKVs ts iter' = drop n (remainingKVs ts iter)
           \<and> set (pendingSSTs iter') \<subseteq> set (pendingSSTs iter)"
  using assms
proof (induction n arbitrary: iter)
  case 0
  then show ?case by simp
next
  case (Suc n)
  from Next_step [OF Suc.prems] obtain iter1 where
    first: "Next ts iter =
       Inr (case remainingKVs ts iter of [] \<Rightarrow> None | kv # rest \<Rightarrow> Some kv, iter1)"
    and rem1: "remainingKVs ts iter1 = tl (remainingKVs ts iter)"
    and sub1: "set (pendingSSTs iter1) \<subseteq> set (pendingSSTs iter)"
    by blast
  from sub1 Suc.prems have "\<forall>sst \<in> set (pendingSSTs iter1). ts sst \<noteq> None"
    by blast
  from Suc.IH [OF this] obtain iter' where
    rest: "nextCalls ts n iter1 =
       Inr (map Some (take n (remainingKVs ts iter1))
              @ replicate (n - length (remainingKVs ts iter1)) None, iter')"
    and rem': "remainingKVs ts iter' = drop n (remainingKVs ts iter1)"
    and sub': "set (pendingSSTs iter') \<subseteq> set (pendingSSTs iter1)"
    by blast
  show ?case
  proof (cases "remainingKVs ts iter")
    case Nil
    with first rest rem1 rem' sub1 sub' show ?thesis
      by (auto simp: replicate_append_same)
  next
    case (Cons kv kvs)
    with first rest rem1 rem' sub1 sub' show ?thesis
      by auto
  qed
qed

lemma remainingKVs_new:
  "remainingKVs ts (newSortedRunIterator sr tasks blocks) = runContent ts sr"
  by (simp add: remainingKVs_def newSortedRunIterator_def runContent_def)

lemma pendingSSTs_new: "pendingSSTs (newSortedRunIterator sr tasks blocks) = files sr"
  by (simp add: newSortedRunIterator_def)

lemma filesSortedDisjoint_sorted:
  "filesSortedDisjoint fs \<Longrightarrow> sorted_wrt (<) (map fst (concat fs))"
  by (induction fs) (auto simp: sorted_wrt_append)

text \<open>
  C7. For a run whose files can all be read, are each sorted by strictly ascending key
  and have disjoint, ascending key ranges, a scan from a new iterator returns the pairs of
  file 0, then those of file 1, and so on, and then "none"; the keys of that sequence are
  strictly increasing, with no key twice.
\<close>

theorem full_scan_is_concatenation:
  assumes "\<forall>sst \<in> set (files sr). ts sst \<noteq> None"
    and "filesSortedDisjoint (map (fileContent ts) (files sr))"
  shows "(\<exists>iter'. nextCalls ts (Suc (length (runContent ts sr)))
                    (newSortedRunIterator sr tasks blocks)
                  = Inr (map Some (runContent ts sr) @ [None], iter'))
         \<and> sorted_wrt (<) (map fst (runContent ts sr))
         \<and> distinct (map fst (runContent ts sr))"
proof -
  from assms(1) have readable:
    "\<forall>sst \<in> set (pendingSSTs (newSortedRunIterator sr tasks blocks)). ts sst \<noteq> None"
    by (simp add: pendingSSTs_new)
  from nextCalls_results [OF readable, of "Suc (length (runContent ts sr))"]
  have scan: "\<exists>iter'. nextCalls ts (Suc (length (runContent ts sr)))
                    (newSortedRunIterator sr tasks blocks)
                  = Inr (map Some (runContent ts sr) @ [None], iter')"
    by (auto simp: remainingKVs_new)
  from assms(2) have sorted: "sorted_wrt (<) (map fst (runContent ts sr))"
    unfolding runContent_def by (rule filesSortedDisjoint_sorted)
  then have "distinct (map fst (runContent ts sr))"
    by (simp add: strict_sorted_iff)
  with scan sorted show ?thesis by simp
qed

lemma example_runContent:
  "runContent exampleStore exampleRun =
     [(''key1'', ''value1''), (''key2'', ''value2''), (''key3'', ''value3'')]"
  by (simp add: exampleRun_def exampleStore_def sstHandle_def runContent_def fileContent_def)

lemma example_readable: "\<forall>sst \<in> set (files exampleRun). exampleStore sst \<noteq> None"
  by (simp add: exampleRun_def exampleStore_def sstHandle_def)

theorem full_scan_is_concatenation_witness:
  "(\<exists>iter'. nextCalls exampleStore 4 (newSortedRunIterator exampleRun 1 1)
             = Inr ([Some (''key1'', ''value1''), Some (''key2'', ''value2''),
                     Some (''key3'', ''value3''), None], iter'))
   \<and> sorted_wrt (<) [''key1'', ''key2'', ''key3'']"
proof -
  have disjoint: "filesSortedDisjoint (map (fileContent exampleStore) (files exampleRun))"
    by (simp add: exampleRun_def exampleStore_def sstHandle_def fileContent_def)
  have calls: "Suc (length (runContent exampleStore exampleRun)) = 4"
    by (simp add: example_runContent)
  from full_scan_is_concatenation [OF example_readable disjoint, of 1 1]
  show ?thesis
    unfolding calls unfolding example_runContent by simp
qed

text \<open>
  C8. For a run whose files can all be read, once a new iterator has been asked for at
  least as many pairs as the run holds (so that it has yielded them all), any number of
  further calls of \<open>Next\<close> all return "none", with no error.
\<close>

theorem exhausted_iterator_stays_exhausted:
  assumes "\<forall>sst \<in> set (files sr). ts sst \<noteq> None"
    and "length (runContent ts sr) \<le> n"
  shows "\<exists>iter'. nextCalls ts n (newSortedRunIterator sr tasks blocks)
                  = Inr (map Some (runContent ts sr)
                           @ replicate (n - length (runContent ts sr)) None, iter')
               \<and> (\<forall>m. \<exists>iter''. nextCalls ts m iter' = Inr (replicate m None, iter''))"
proof -
  from assms(1) have readable:
    "\<forall>sst \<in> set (pendingSSTs (newSortedRunIterator sr tasks blocks)). ts sst \<noteq> None"
    by (simp add: pendingSSTs_new)
  from nextCalls_results [OF readable, of n] assms(2) obtain iter' where
    first: "nextCalls ts n (newSortedRunIterator sr tasks blocks)
              = Inr (map Some (runContent ts sr)
                       @ replicate (n - length (runContent ts sr)) None, iter')"
    and drained: "remainingKVs ts iter' = []"
    and sub: "set (pendingSSTs iter') \<subseteq> set (files sr)"
    by (auto simp: remainingKVs_new pendingSSTs_new)
  from sub assms(1) have readable': "\<forall>sst \<in> set (pendingSSTs iter'). ts sst \<noteq> None"
    by blast
  have "\<exists>iter''. nextCalls ts m iter' = Inr (replicate m None, iter'')" for m
    using nextCalls_results [OF readable', of m] by (auto simp: drained)
  with first show ?thesis by blast
qed

theorem exhausted_iterator_stays_exhausted_witness:
  "\<exists>iter'. nextCalls exampleStore 3 (newSortedRunIterator exampleRun 1 1)
             = Inr ([Some (''key1'', ''value1''), Some (''key2'', ''value2''),
                     Some (''key3'', ''value3'')], iter')
          \<and> (\<forall>m. \<exists>iter''. nextCalls exampleStore m iter' = Inr (replicate m None, iter''))"
proof -
  have enough: "length (runContent exampleStore exampleRun) \<le> 3"
    by (simp add: example_runContent)
  from exhausted_iterator_stays_exhausted [OF example_readable enough, of 1 1]
  show ?thesis
    unfolding example_runContent by simp
qed

end
